theory Spec2Isabelle
  imports Main "HOL-Library.Word" "HOL-Library.Sublist"
begin

section \<open>JavaScript strings\<close>

text \<open>
  A JavaScript string is a sequence of 16-bit code units. \<open>js\<close> writes an ASCII literal
  of the source as such a sequence.
\<close>

type_synonym code_unit = "16 word"
type_synonym jsstring = "code_unit list"

definition cu :: "char \<Rightarrow> code_unit" where
  "cu c = of_char c"

definition js :: "string \<Rightarrow> jsstring" where
  "js = map cu"

text \<open>
  \<open>String.prototype.trim\<close> removes, at both ends, the code points of the productions
  WhiteSpace (TAB, VT, FF, SP, NBSP, ZWNBSP and the category Zs) and LineTerminator
  (LF, CR, LS, PS). The class \<open>\s\<close> of a regular expression is the same set.
\<close>

definition isWhiteSpace :: "code_unit \<Rightarrow> bool" where
  "isWhiteSpace c \<longleftrightarrow>
     c = 0x0009 \<or> c = 0x000A \<or> c = 0x000B \<or> c = 0x000C \<or> c = 0x000D \<or>
     c = 0x0020 \<or> c = 0x00A0 \<or> c = 0x1680 \<or> (0x2000 \<le> c \<and> c \<le> 0x200A) \<or>
     c = 0x2028 \<or> c = 0x2029 \<or> c = 0x202F \<or> c = 0x205F \<or> c = 0x3000 \<or>
     c = 0xFEFF"

definition trim :: "jsstring \<Rightarrow> jsstring" where
  "trim s = rev (dropWhile isWhiteSpace (rev (dropWhile isWhiteSpace s)))"

section \<open>The regular expressions of \<open>detectScanType\<close>\<close>

text \<open>
  The seven patterns of the source are sequences of character classes, each taken once
  (\<open>x\<close>), at most once (\<open>x?\<close>) or at least \<open>n\<close> times (\<open>x+\<close> is \<open>n = 1\<close>,
  \<open>x{6,}\<close> is \<open>n = 6\<close>). All begin with \<open>^\<close>; two end with \<open>$\<close>. There is no
  group, alternation or back reference, so \<open>test\<close> is true exactly when some way of
  splitting the input among the pieces exists; \<open>rmatch\<close> tries them in the order of
  the backtracking matcher (a quantifier takes a character before it gives up).

  With \<open>eol = True\<close> the pattern ends with \<open>$\<close> and the whole input must be used; with
  \<open>eol = False\<close> any rest of the input is accepted.
\<close>

datatype piece =
    One "code_unit \<Rightarrow> bool"
  | Opt "code_unit \<Rightarrow> bool"
  | AtLeast nat "code_unit \<Rightarrow> bool"

fun rmatch :: "bool \<Rightarrow> piece list \<Rightarrow> jsstring \<Rightarrow> bool" where
  "rmatch eol [] s = (if eol then s = [] else True)"
| "rmatch eol (One p # r) [] = False"
| "rmatch eol (One p # r) (c # cs) = (p c \<and> rmatch eol r cs)"
| "rmatch eol (Opt p # r) [] = rmatch eol r []"
| "rmatch eol (Opt p # r) (c # cs) = ((p c \<and> rmatch eol r cs) \<or> rmatch eol r (c # cs))"
| "rmatch eol (AtLeast 0 p # r) [] = rmatch eol r []"
| "rmatch eol (AtLeast 0 p # r) (c # cs) =
     ((p c \<and> rmatch eol (AtLeast 0 p # r) cs) \<or> rmatch eol r (c # cs))"
| "rmatch eol (AtLeast (Suc n) p # r) [] = False"
| "rmatch eol (AtLeast (Suc n) p # r) (c # cs) = (p c \<and> rmatch eol (AtLeast n p # r) cs)"

record regexp =
  pieces :: "piece list"
  dollar :: bool

definition test :: "regexp \<Rightarrow> jsstring \<Rightarrow> bool" where
  "test re s = rmatch (dollar re) (pieces re) s"

text \<open>
  Under the flag \<open>i\<close> (without \<open>u\<close>) two code units match when their canonical forms
  are equal. The canonical form is the upper-case mapping, except that a code unit
  outside ASCII is never mapped into ASCII; so a pattern character of ASCII matches its
  two ASCII cases and nothing else.
\<close>

definition asciiUpper :: "code_unit \<Rightarrow> code_unit" where
  "asciiUpper c = (if 0x61 \<le> c \<and> c \<le> 0x7A then c - 0x20 else c)"

definition ci :: "char \<Rightarrow> code_unit \<Rightarrow> bool" where
  "ci a c \<longleftrightarrow> asciiUpper c = asciiUpper (cu a)"

definition lit :: "char \<Rightarrow> code_unit \<Rightarrow> bool" where
  "lit a c \<longleftrightarrow> c = cu a"

text \<open>\<open>\d\<close> is \<open>[0-9]\<close>.\<close>

definition isDigit :: "code_unit \<Rightarrow> bool" where
  "isDigit c \<longleftrightarrow> 0x30 \<le> c \<and> c \<le> 0x39"

text \<open>\<open>[^\s@]\<close>\<close>

definition notSpaceAt :: "code_unit \<Rightarrow> bool" where
  "notSpaceAt c \<longleftrightarrow> \<not> (isWhiteSpace c \<or> lit CHR ''@'' c)"

text \<open>\<open>[\d\s\-()]\<close>\<close>

definition phoneChar :: "code_unit \<Rightarrow> bool" where
  "phoneChar c \<longleftrightarrow>
     isDigit c \<or> isWhiteSpace c \<or> lit CHR ''-'' c \<or> lit CHR ''('' c \<or> lit CHR '')'' c"

text \<open>\<open>/^https?:\/\//i\<close>\<close>

definition re_http :: regexp where
  "re_http = \<lparr>pieces = [One (ci CHR ''h''), One (ci CHR ''t''), One (ci CHR ''t''),
      One (ci CHR ''p''), Opt (ci CHR ''s''), One (ci CHR '':''), One (ci CHR ''/''),
      One (ci CHR ''/'')], dollar = False\<rparr>"

text \<open>\<open>/^www\./i\<close>\<close>

definition re_www :: regexp where
  "re_www = \<lparr>pieces = [One (ci CHR ''w''), One (ci CHR ''w''), One (ci CHR ''w''),
      One (ci CHR ''.'')], dollar = False\<rparr>"

text \<open>\<open>/^mailto:/i\<close>\<close>

definition re_mailto :: regexp where
  "re_mailto = \<lparr>pieces = [One (ci CHR ''m''), One (ci CHR ''a''), One (ci CHR ''i''),
      One (ci CHR ''l''), One (ci CHR ''t''), One (ci CHR ''o''), One (ci CHR '':'')],
      dollar = False\<rparr>"

text \<open>\<open>/^[^\s@]+@[^\s@]+\.[^\s@]+$/\<close>\<close>

definition re_email :: regexp where
  "re_email = \<lparr>pieces = [AtLeast 1 notSpaceAt, One (lit CHR ''@''), AtLeast 1 notSpaceAt,
      One (lit CHR ''.''), AtLeast 1 notSpaceAt], dollar = True\<rparr>"

text \<open>\<open>/^tel:/i\<close>\<close>

definition re_tel :: regexp where
  "re_tel = \<lparr>pieces = [One (ci CHR ''t''), One (ci CHR ''e''), One (ci CHR ''l''),
      One (ci CHR '':'')], dollar = False\<rparr>"

text \<open>\<open>/^\+?\d[\d\s\-()]{6,}$/\<close>\<close>

definition re_phone :: regexp where
  "re_phone = \<lparr>pieces = [Opt (lit CHR ''+''), One isDigit, AtLeast 6 phoneChar],
      dollar = True\<rparr>"

text \<open>\<open>/^WIFI:/i\<close>\<close>

definition re_wifi :: regexp where
  "re_wifi = \<lparr>pieces = [One (ci CHR ''W''), One (ci CHR ''I''), One (ci CHR ''F''),
      One (ci CHR ''I''), One (ci CHR '':'')], dollar = False\<rparr>"

section \<open>The classifier\<close>

datatype ScanType = Url | Text | Email | Phone | Wifi | Unknown

definition detectScanType :: "jsstring \<Rightarrow> ScanType" where
  "detectScanType data =
     (let trimmed = trim data in
      if test re_http trimmed \<or> test re_www trimmed then Url
      else if test re_mailto trimmed \<or> test re_email trimmed then Email
      else if test re_tel trimmed \<or> test re_phone trimmed then Phone
      else if test re_wifi trimmed then Wifi
      else if length trimmed > 0 then Text
      else Unknown)"

section \<open>The classifier as the specification words it\<close>

text \<open>
  The second description of the classifier follows the six rules of the specification:
  prefixes compared without regard to ASCII case, and the two shapes as conditions on
  the whole trimmed text. It is compared with \<open>detectScanType\<close> below.

  \<open>startsWithCI p s\<close>: the text \<open>s\<close> begins with \<open>p\<close>, upper and lower case taken as
  equal.
\<close>

definition startsWithCI :: "string \<Rightarrow> jsstring \<Rightarrow> bool" where
  "startsWithCI p s \<longleftrightarrow>
     length p \<le> length s \<and> map asciiUpper (take (length p) s) = map asciiUpper (js p)"

text \<open>
  The e-mail shape: a text without white space and with exactly one \<open>@\<close>; the local part
  before the \<open>@\<close> is not empty, and the domain after it contains a dot that is neither
  its first nor its last character.
\<close>

definition emailShape :: "jsstring \<Rightarrow> bool" where
  "emailShape s \<longleftrightarrow>
     (let local = takeWhile (\<lambda>c. c \<noteq> cu CHR ''@'') s;
          domain = drop (Suc (length local)) s
      in count_list s (cu CHR ''@'') = 1 \<and> \<not> list_ex isWhiteSpace s \<and> local \<noteq> [] \<and>
         cu CHR ''.'' \<in> set (butlast (tl domain)))"

text \<open>
  The phone shape: an optional \<open>+\<close>, then a digit, then at least six more characters,
  each a digit, a white-space character, a hyphen or a parenthesis.
\<close>

fun dropPlus :: "jsstring \<Rightarrow> jsstring" where
  "dropPlus [] = []"
| "dropPlus (c # cs) = (if c = cu CHR ''+'' then cs else c # cs)"

definition phoneShape :: "jsstring \<Rightarrow> bool" where
  "phoneShape s \<longleftrightarrow>
     (case dropPlus s of
        [] \<Rightarrow> False
      | d # rest \<Rightarrow> isDigit d \<and> 6 \<le> length rest \<and> list_all phoneChar rest)"

text \<open>The conditions of the rules 1 to 4 on the trimmed text.\<close>

definition urlRule :: "jsstring \<Rightarrow> bool" where
  "urlRule t \<longleftrightarrow>
     startsWithCI ''http://'' t \<or> startsWithCI ''https://'' t \<or> startsWithCI ''www.'' t"

definition emailRule :: "jsstring \<Rightarrow> bool" where
  "emailRule t \<longleftrightarrow> startsWithCI ''mailto:'' t \<or> emailShape t"

definition phoneRule :: "jsstring \<Rightarrow> bool" where
  "phoneRule t \<longleftrightarrow> startsWithCI ''tel:'' t \<or> phoneShape t"

definition wifiRule :: "jsstring \<Rightarrow> bool" where
  "wifiRule t \<longleftrightarrow> startsWithCI ''WIFI:'' t"

text \<open>The six rules, in their order; the first that applies gives the tag.\<close>

definition classify :: "jsstring \<Rightarrow> ScanType" where
  "classify raw =
     (let t = trim raw in
      if urlRule t then Url
      else if emailRule t then Email
      else if phoneRule t then Phone
      else if wifiRule t then Wifi
      else if t \<noteq> [] then Text
      else Unknown)"

section \<open>JSON values and \<open>JSON.parse\<close>\<close>

text \<open>
  The snapshot is read with \<open>JSON.parse\<close> and written with \<open>JSON.stringify\<close>; both are
  functions of the platform, modelled here from ECMA-262 and ECMA-404.

  A value that \<open>JSON.parse\<close> returns is \<open>null\<close>, a boolean, a number, a string, an array
  or an object. Floating point is outside this model: a number written as an integer
  literal is kept as that integer (exact while its magnitude is below \<open>2^53\<close>, which
  covers every value of \<open>Date.now\<close>), and any other valid number literal is kept as its
  text (\<open>JNumberLit\<close>). An object is the list of its members in the order of the text;
  a key that is repeated keeps its first position and takes the later value
  (\<open>setProperty\<close>). A run-time object lists the keys that are array indices before the
  others; no key of a scan record is one.
\<close>

datatype json =
    JNull
  | JBool bool
  | JNumber int
  | JNumberLit jsstring
  | JString jsstring
  | JArray "json list"
  | JObject "(jsstring \<times> json) list"

fun setProperty :: "jsstring \<Rightarrow> json \<Rightarrow> (jsstring \<times> json) list \<Rightarrow> (jsstring \<times> json) list" where
  "setProperty k v [] = [(k, v)]"
| "setProperty k v ((k', v') # ms) =
     (if k' = k then (k, v) # ms else (k', v') # setProperty k v ms)"

subsection \<open>Tokens\<close>

text \<open>
  The text is first cut into tokens: the six punctuation marks, and the scalar values
  (strings, numbers, \<open>true\<close>, \<open>false\<close>, \<open>null\<close>). The lexer reads one code unit at a
  time. A string may not contain a raw control character; an escape is a backslash
  followed by a quotation mark, a backslash, a slash, one of \<open>b f n r t\<close>, or \<open>u\<close> and
  four hexadecimal digits. A number is an optional minus sign, then \<open>0\<close> or digits that do
  not begin with \<open>0\<close>, then an optional fraction (a dot and digits) and an optional
  exponent (\<open>e\<close> or \<open>E\<close>, an optional sign, digits). White space between tokens is TAB,
  LF, CR and SP only.
\<close>

datatype token =
    TLBracket | TRBracket | TLBrace | TRBrace | TColon | TComma
  | TValue json

definition hexValue :: "code_unit \<Rightarrow> nat option" where
  "hexValue c =
     (if 0x30 \<le> c \<and> c \<le> 0x39 then Some (unat (c - 0x30))
      else if 0x61 \<le> c \<and> c \<le> 0x66 then Some (unat (c - 0x57))
      else if 0x41 \<le> c \<and> c \<le> 0x46 then Some (unat (c - 0x37))
      else None)"

definition unescape :: "code_unit \<Rightarrow> code_unit option" where
  "unescape c =
     (if c = 0x22 then Some (0x22)
      else if c = 0x5C then Some (0x5C)
      else if c = cu CHR ''/'' then Some (cu CHR ''/'')
      else if c = cu CHR ''b'' then Some 0x08
      else if c = cu CHR ''f'' then Some 0x0C
      else if c = cu CHR ''n'' then Some 0x0A
      else if c = cu CHR ''r'' then Some 0x0D
      else if c = cu CHR ''t'' then Some 0x09
      else None)"

definition isJSONWhiteSpace :: "code_unit \<Rightarrow> bool" where
  "isJSONWhiteSpace c \<longleftrightarrow> c = 0x09 \<or> c = 0x0A \<or> c = 0x0D \<or> c = 0x20"

definition isNumberChar :: "code_unit \<Rightarrow> bool" where
  "isNumberChar c \<longleftrightarrow>
     isDigit c \<or> c = cu CHR ''-'' \<or> c = cu CHR ''+'' \<or> c = cu CHR ''.'' \<or>
     c = cu CHR ''e'' \<or> c = cu CHR ''E''"

definition isWordChar :: "code_unit \<Rightarrow> bool" where
  "isWordChar c \<longleftrightarrow> 0x61 \<le> c \<and> c \<le> 0x7A"

definition digitValue :: "code_unit \<Rightarrow> nat" where
  "digitValue c = unat (c - 0x30)"

definition parseNat :: "jsstring \<Rightarrow> nat" where
  "parseNat ds = foldl (\<lambda>a d. 10 * a + digitValue d) 0 ds"

definition re_fraction :: "piece list" where
  "re_fraction = [One (lit CHR ''.''), AtLeast 1 isDigit]"

definition re_exponent :: "piece list" where
  "re_exponent = [One (\<lambda>c. lit CHR ''e'' c \<or> lit CHR ''E'' c),
     Opt (\<lambda>c. lit CHR ''+'' c \<or> lit CHR ''-'' c), AtLeast 1 isDigit]"

definition numberValue :: "jsstring \<Rightarrow> json option" where
  "numberValue s =
     (let neg = (s \<noteq> [] \<and> hd s = cu CHR ''-'');
          body = (if neg then tl s else s);
          ip = takeWhile isDigit body;
          rest = dropWhile isDigit body
      in if ip = [] \<or> (1 < length ip \<and> hd ip = cu CHR ''0'') then None
         else if rest = [] then Some (JNumber (if neg then - int (parseNat ip) else int (parseNat ip)))
         else if rmatch True re_fraction rest \<or> rmatch True re_exponent rest \<or>
                 rmatch True (re_fraction @ re_exponent) rest
         then Some (JNumberLit s)
         else None)"

definition wordValue :: "jsstring \<Rightarrow> json option" where
  "wordValue s =
     (if s = js ''true'' then Some (JBool True)
      else if s = js ''false'' then Some (JBool False)
      else if s = js ''null'' then Some JNull
      else None)"

datatype lexstate =
    LIdle
  | LString jsstring
  | LEscape jsstring
  | LHex jsstring nat nat
  | LNumber jsstring
  | LWord jsstring

definition idleStep :: "code_unit \<Rightarrow> (token list \<times> lexstate) option" where
  "idleStep c =
     (if isJSONWhiteSpace c then Some ([], LIdle)
      else if c = cu CHR ''['' then Some ([TLBracket], LIdle)
      else if c = cu CHR '']'' then Some ([TRBracket], LIdle)
      else if c = cu CHR ''{'' then Some ([TLBrace], LIdle)
      else if c = cu CHR ''}'' then Some ([TRBrace], LIdle)
      else if c = cu CHR '':'' then Some ([TColon], LIdle)
      else if c = cu CHR '','' then Some ([TComma], LIdle)
      else if c = 0x22 then Some ([], LString [])
      else if c = cu CHR ''-'' \<or> isDigit c then Some ([], LNumber [c])
      else if isWordChar c then Some ([], LWord [c])
      else None)"

definition endLiteral ::
  "json option \<Rightarrow> code_unit \<Rightarrow> (token list \<times> lexstate) option" where
  "endLiteral v c =
     (case v of
        None \<Rightarrow> None
      | Some j \<Rightarrow> (case idleStep c of None \<Rightarrow> None | Some (ts, st) \<Rightarrow> Some (TValue j # ts, st)))"

fun lexStep :: "lexstate \<Rightarrow> code_unit \<Rightarrow> (token list \<times> lexstate) option" where
  "lexStep LIdle c = idleStep c"
| "lexStep (LString acc) c =
     (if c = 0x22 then Some ([TValue (JString (rev acc))], LIdle)
      else if c = 0x5C then Some ([], LEscape acc)
      else if c < 0x20 then None
      else Some ([], LString (c # acc)))"
| "lexStep (LEscape acc) c =
     (if c = cu CHR ''u'' then Some ([], LHex acc 4 0)
      else (case unescape c of None \<Rightarrow> None | Some d \<Rightarrow> Some ([], LString (d # acc))))"
| "lexStep (LHex acc n v) c =
     (case hexValue c of
        None \<Rightarrow> None
      | Some h \<Rightarrow>
          if n \<le> 1 then Some ([], LString (of_nat (16 * v + h) # acc))
          else Some ([], LHex acc (n - 1) (16 * v + h)))"
| "lexStep (LNumber acc) c =
     (if isNumberChar c then Some ([], LNumber (c # acc))
      else endLiteral (numberValue (rev acc)) c)"
| "lexStep (LWord acc) c =
     (if isWordChar c then Some ([], LWord (c # acc))
      else endLiteral (wordValue (rev acc)) c)"

fun lexEnd :: "lexstate \<Rightarrow> token list option" where
  "lexEnd LIdle = Some []"
| "lexEnd (LNumber acc) = map_option (\<lambda>j. [TValue j]) (numberValue (rev acc))"
| "lexEnd (LWord acc) = map_option (\<lambda>j. [TValue j]) (wordValue (rev acc))"
| "lexEnd _ = None"

definition prepend :: "token list \<Rightarrow> token list option \<Rightarrow> token list option" where
  "prepend ts r = map_option (\<lambda>us. ts @ us) r"

fun tokenize :: "lexstate \<Rightarrow> jsstring \<Rightarrow> token list option" where
  "tokenize st [] = lexEnd st"
| "tokenize st (c # cs) =
     (case lexStep st c of
        None \<Rightarrow> None
      | Some (ts, st') \<Rightarrow> prepend ts (tokenize st' cs))"

subsection \<open>Parser\<close>

text \<open>
  The tokens drive a pushdown automaton. The stack holds one frame for each array or
  object that is still open; the mode says what may come next. A finished value is
  handed to the innermost open container, or is the result when none is open.
\<close>

datatype frame =
    FArray "json list"
  | FObject "(jsstring \<times> json) list" jsstring

datatype mode =
    MValue
  | MArrayOpen
  | MArrayNext "json list"
  | MObjectOpen
  | MObjectKey "(jsstring \<times> json) list"
  | MObjectColon "(jsstring \<times> json) list" jsstring
  | MObjectNext "(jsstring \<times> json) list"
  | MDone json

fun deliver :: "json \<Rightarrow> frame list \<Rightarrow> mode \<times> frame list" where
  "deliver v [] = (MDone v, [])"
| "deliver v (FArray es # st) = (MArrayNext (es @ [v]), st)"
| "deliver v (FObject ms k # st) = (MObjectNext (setProperty k v ms), st)"

fun valueStep :: "frame list \<Rightarrow> token \<Rightarrow> (mode \<times> frame list) option" where
  "valueStep st (TValue v) = Some (deliver v st)"
| "valueStep st TLBracket = Some (MArrayOpen, st)"
| "valueStep st TLBrace = Some (MObjectOpen, st)"
| "valueStep st _ = None"

fun keyStep :: "(jsstring \<times> json) list \<Rightarrow> frame list \<Rightarrow> token \<Rightarrow> (mode \<times> frame list) option" where
  "keyStep ms st (TValue (JString k)) = Some (MObjectColon ms k, st)"
| "keyStep ms st _ = None"

fun parseStep :: "mode \<times> frame list \<Rightarrow> token \<Rightarrow> (mode \<times> frame list) option" where
  "parseStep (MValue, st) t = valueStep st t"
| "parseStep (MArrayOpen, st) t =
     (if t = TRBracket then Some (deliver (JArray []) st) else valueStep (FArray [] # st) t)"
| "parseStep (MArrayNext es, st) t =
     (if t = TComma then Some (MValue, FArray es # st)
      else if t = TRBracket then Some (deliver (JArray es) st)
      else None)"
| "parseStep (MObjectOpen, st) t =
     (if t = TRBrace then Some (deliver (JObject []) st) else keyStep [] st t)"
| "parseStep (MObjectKey ms, st) t = keyStep ms st t"
| "parseStep (MObjectColon ms k, st) t =
     (if t = TColon then Some (MValue, FObject ms k # st) else None)"
| "parseStep (MObjectNext ms, st) t =
     (if t = TComma then Some (MObjectKey ms, st)
      else if t = TRBrace then Some (deliver (JObject ms) st)
      else None)"
| "parseStep (MDone v, st) t = None"

fun parseTokens :: "mode \<times> frame list \<Rightarrow> token list \<Rightarrow> json option" where
  "parseTokens (MDone v, st) [] = Some v"
| "parseTokens (m, st) [] = None"
| "parseTokens cfg (t # ts) =
     (case parseStep cfg t of None \<Rightarrow> None | Some cfg' \<Rightarrow> parseTokens cfg' ts)"

definition JSON_parse :: "jsstring \<Rightarrow> json option" where
  "JSON_parse text =
     (case tokenize LIdle text of None \<Rightarrow> None | Some ts \<Rightarrow> parseTokens (MValue, []) ts)"



section \<open>Scan records\<close>

text \<open>
  \<open>ScanItem\<close> of the source. The field \<open>id\<close> is written \<open>id'\<close>. \<open>timestamp\<close> is the
  value of \<open>Date.now()\<close>, an integer number of milliseconds.

  \<open>toJS\<close> is the run-time value of a typed collection: an array of objects with the four
  properties in the order of the object literal of \<open>addScan\<close>, the tag being one of the
  six strings of the type \<open>ScanType\<close>. \<open>asScanItems\<close> reads a run-time value at the type
  \<open>ScanItem[]\<close>, when it has that shape.
\<close>

record ScanItem =
  id' :: jsstring
  data :: jsstring
  type :: ScanType
  timestamp :: int

fun typeName :: "ScanType \<Rightarrow> jsstring" where
  "typeName Url = js ''url''"
| "typeName Text = js ''text''"
| "typeName Email = js ''email''"
| "typeName Phone = js ''phone''"
| "typeName Wifi = js ''wifi''"
| "typeName Unknown = js ''unknown''"

definition toJS_item :: "ScanItem \<Rightarrow> json" where
  "toJS_item x = JObject [(js ''id'', JString (id' x)), (js ''data'', JString (data x)),
     (js ''type'', JString (typeName (type x))), (js ''timestamp'', JNumber (timestamp x))]"

definition toJS :: "ScanItem list \<Rightarrow> json" where
  "toJS items = JArray (map toJS_item items)"

definition typeOfName :: "jsstring \<Rightarrow> ScanType option" where
  "typeOfName s =
     (if s = js ''url'' then Some Url
      else if s = js ''text'' then Some Text
      else if s = js ''email'' then Some Email
      else if s = js ''phone'' then Some Phone
      else if s = js ''wifi'' then Some Wifi
      else if s = js ''unknown'' then Some Unknown
      else None)"

definition asScanItem :: "json \<Rightarrow> ScanItem option" where
  "asScanItem v =
     (case v of
        JObject ms \<Rightarrow>
          (case (map_of ms (js ''id''), map_of ms (js ''data''), map_of ms (js ''type''),
                 map_of ms (js ''timestamp'')) of
             (Some (JString i), Some (JString d), Some (JString t), Some (JNumber n)) \<Rightarrow>
               (if length ms = 4 then
                  map_option (\<lambda>ty. \<lparr>id' = i, data = d, type = ty, timestamp = n\<rparr>) (typeOfName t)
                else None)
           | _ \<Rightarrow> None)
      | _ \<Rightarrow> None)"

fun allSome :: "'a option list \<Rightarrow> 'a list option" where
  "allSome [] = Some []"
| "allSome (None # xs) = None"
| "allSome (Some x # xs) = map_option ((#) x) (allSome xs)"

definition asScanItems :: "json \<Rightarrow> ScanItem list option" where
  "asScanItems v = (case v of JArray es \<Rightarrow> allSome (map asScanItem es) | _ \<Rightarrow> None)"

section \<open>\<open>JSON.stringify\<close> of a collection\<close>

text \<open>
  \<open>JSON.stringify(items)\<close> for \<open>items: ScanItem[]\<close>, without indentation. A string is
  quoted by QuoteJSONString: the seven short escapes, the escape with \<open>u\<close> and four
  lower-case hexadecimal digits for the other control characters and for a surrogate
  that has no partner, and every other code unit as it is. An integer below \<open>10^21\<close> in
  magnitude is written in decimal.
\<close>

definition hexDigit :: "nat \<Rightarrow> code_unit" where
  "hexDigit d = (if d < 10 then 0x30 + of_nat d else 0x57 + of_nat d)"

definition unicodeEscape :: "code_unit \<Rightarrow> jsstring" where
  "unicodeEscape c = [0x5C, cu CHR ''u'', hexDigit (unat c div 4096),
     hexDigit (unat c div 256 mod 16), hexDigit (unat c div 16 mod 16), hexDigit (unat c mod 16)]"

definition isLeadSurrogate :: "code_unit \<Rightarrow> bool" where
  "isLeadSurrogate c \<longleftrightarrow> 0xD800 \<le> c \<and> c \<le> 0xDBFF"

definition isTrailSurrogate :: "code_unit \<Rightarrow> bool" where
  "isTrailSurrogate c \<longleftrightarrow> 0xDC00 \<le> c \<and> c \<le> 0xDFFF"

definition quoteUnit :: "code_unit \<Rightarrow> jsstring" where
  "quoteUnit c =
     (if c = 0x08 then [0x5C, cu CHR ''b'']
      else if c = 0x09 then [0x5C, cu CHR ''t'']
      else if c = 0x0A then [0x5C, cu CHR ''n'']
      else if c = 0x0C then [0x5C, cu CHR ''f'']
      else if c = 0x0D then [0x5C, cu CHR ''r'']
      else if c = 0x22 then [0x5C, 0x22]
      else if c = 0x5C then [0x5C, 0x5C]
      else if c < 0x20 \<or> isLeadSurrogate c \<or> isTrailSurrogate c then unicodeEscape c
      else [c])"

fun quoteChars :: "jsstring \<Rightarrow> jsstring" where
  "quoteChars [] = []"
| "quoteChars [c] = quoteUnit c"
| "quoteChars (c # d # cs) =
     (if isLeadSurrogate c \<and> isTrailSurrogate d then c # d # quoteChars cs
      else quoteUnit c @ quoteChars (d # cs))"

definition QuoteJSONString :: "jsstring \<Rightarrow> jsstring" where
  "QuoteJSONString s = 0x22 # quoteChars s @ [0x22]"

fun showNat :: "nat \<Rightarrow> jsstring" where
  "showNat n =
     (if n < 10 then [0x30 + of_nat n] else showNat (n div 10) @ [0x30 + of_nat (n mod 10)])"

declare showNat.simps [simp del]

definition Number_toString :: "int \<Rightarrow> jsstring" where
  "Number_toString n = (if n < 0 then cu CHR ''-'' # showNat (nat (- n)) else showNat (nat n))"

fun joinComma :: "jsstring list \<Rightarrow> jsstring" where
  "joinComma [] = []"
| "joinComma [x] = x"
| "joinComma (x # y # r) = x @ cu CHR '','' # joinComma (y # r)"

definition serializeMember :: "string \<Rightarrow> jsstring \<Rightarrow> jsstring" where
  "serializeMember k v = QuoteJSONString (js k) @ cu CHR '':'' # v"

definition serializeItem :: "ScanItem \<Rightarrow> jsstring" where
  "serializeItem x =
     cu CHR ''{'' # joinComma [
       serializeMember ''id'' (QuoteJSONString (id' x)),
       serializeMember ''data'' (QuoteJSONString (data x)),
       serializeMember ''type'' (QuoteJSONString (typeName (type x))),
       serializeMember ''timestamp'' (Number_toString (timestamp x))] @ [cu CHR ''}'']"

definition JSON_stringify :: "ScanItem list \<Rightarrow> jsstring" where
  "JSON_stringify items = cu CHR ''['' # joinComma (map serializeItem items) @ [cu CHR '']'']"

definition ex1 :: "ScanItem list" where
  "ex1 = [\<lparr>id' = js ''a-1'', data = [0x22, 0x0A, 0x5C, 0x01, 0xD83D, 0xDE00, 0xD800, 0x41, 0xDFFF],
            type = Text, timestamp = 1700000000123\<rparr>,
          \<lparr>id' = js ''b-2'', data = js ''https://x.y'', type = Url, timestamp = -5\<rparr>]"




text \<open>The tokens of the text that \<open>JSON.stringify\<close> writes for a collection.\<close>

definition itemTokens :: "ScanItem \<Rightarrow> token list" where
  "itemTokens x = [TLBrace,
     TValue (JString (js ''id'')), TColon, TValue (JString (id' x)), TComma,
     TValue (JString (js ''data'')), TColon, TValue (JString (data x)), TComma,
     TValue (JString (js ''type'')), TColon, TValue (JString (typeName (type x))), TComma,
     TValue (JString (js ''timestamp'')), TColon, TValue (JNumber (timestamp x)), TRBrace]"

fun joinTokens :: "token list list \<Rightarrow> token list" where
  "joinTokens [] = []"
| "joinTokens [x] = x"
| "joinTokens (x # y # r) = x @ TComma # joinTokens (y # r)"

section \<open>The history store\<close>

text \<open>
  \<open>ScanHistoryProvider\<close> holds \<open>history\<close> and \<open>isLoading\<close>; \<open>AsyncStorage\<close> holds one
  string under the key \<open>@qr_scan_history\<close>, or nothing. A call of \<open>AsyncStorage\<close> can
  fail: whether it does is an input of the model (\<open>ok\<close>). \<open>trace\<close> lists the effects in
  the order in which they happen; an \<open>async\<close> function continues after \<open>await p\<close> only
  when \<open>p\<close> has settled, so the effects of its body happen in the order of its text.

  The type of \<open>history\<close> is a parameter: \<open>ScanItem list\<close> for the three mutations, as the
  source declares it, and \<open>json\<close> for \<open>loadHistory\<close>, which stores whatever
  \<open>JSON.parse\<close> returns.
\<close>

datatype exn = StorageError | SyntaxError

datatype event =
    HistorySet
  | LoadingSet
  | ReadIssued
  | ReadSettled bool
  | WriteIssued
  | WriteSettled bool
  | ErrorLogged
  | Returned

record 'h world =
  history :: 'h
  isLoading :: bool
  storage :: "jsstring option"
  trace :: "event list"

definition emit :: "event \<Rightarrow> 'h world \<Rightarrow> 'h world" where
  "emit e w = w\<lparr>trace := trace w @ [e]\<rparr>"

definition setHistory :: "'h \<Rightarrow> 'h world \<Rightarrow> 'h world" where
  "setHistory h w = emit HistorySet (w\<lparr>history := h\<rparr>)"

definition setIsLoading :: "bool \<Rightarrow> 'h world \<Rightarrow> 'h world" where
  "setIsLoading b w = emit LoadingSet (w\<lparr>isLoading := b\<rparr>)"

definition console_error :: "'h world \<Rightarrow> 'h world" where
  "console_error w = emit ErrorLogged w"

definition AsyncStorage_getItem :: "bool \<Rightarrow> 'h world \<Rightarrow> (exn + jsstring option) \<times> 'h world" where
  "AsyncStorage_getItem ok w =
     (if ok then (Inr (storage w), emit (ReadSettled True) (emit ReadIssued w))
      else (Inl StorageError, emit (ReadSettled False) (emit ReadIssued w)))"

definition AsyncStorage_setItem :: "bool \<Rightarrow> jsstring \<Rightarrow> 'h world \<Rightarrow> (exn + unit) \<times> 'h world" where
  "AsyncStorage_setItem ok v w =
     (if ok then (Inr (), emit (WriteSettled True) ((emit WriteIssued w)\<lparr>storage := Some v\<rparr>))
      else (Inl StorageError, emit (WriteSettled False) (emit WriteIssued w)))"

text \<open>
  \<open>loadHistory\<close>: the body of the \<open>try\<close> block first, then the \<open>catch\<close> and the
  \<open>finally\<close>. \<open>if (stored)\<close> is false for \<open>null\<close> and for the empty string.
\<close>

definition loadHistory_try :: "bool \<Rightarrow> json world \<Rightarrow> (exn + unit) \<times> json world" where
  "loadHistory_try ok w =
     (case AsyncStorage_getItem ok w of
        (Inl e, w1) \<Rightarrow> (Inl e, w1)
      | (Inr stored, w1) \<Rightarrow>
          (case stored of
             None \<Rightarrow> (Inr (), w1)
           | Some text \<Rightarrow>
               if text = [] then (Inr (), w1)
               else (case JSON_parse text of
                       None \<Rightarrow> (Inl SyntaxError, w1)
                     | Some v \<Rightarrow> (Inr (), setHistory v w1))))"

definition loadHistory :: "bool \<Rightarrow> json world \<Rightarrow> (exn + unit) \<times> json world" where
  "loadHistory ok w =
     (case loadHistory_try ok w of
        (Inl e, w1) \<Rightarrow> (Inr (), setIsLoading False (console_error w1))
      | (Inr u, w1) \<Rightarrow> (Inr (), setIsLoading False w1))"

text \<open>The state of the provider when it is mounted: \<open>useState([])\<close>, \<open>useState(true)\<close>.\<close>

definition mounted :: "jsstring option \<Rightarrow> json world" where
  "mounted stored = \<lparr>history = JArray [], isLoading = True, storage = stored, trace = []\<rparr>"

definition saveHistory :: "bool \<Rightarrow> ScanItem list \<Rightarrow> ScanItem list world \<Rightarrow>
    (exn + unit) \<times> ScanItem list world" where
  "saveHistory ok items w =
     (case AsyncStorage_setItem ok (JSON_stringify items) w of
        (Inl e, w1) \<Rightarrow> (Inr (), console_error w1)
      | (Inr u, w1) \<Rightarrow> (Inr (), w1))"

text \<open>
  \<open>addScan\<close>: \<open>newId\<close> is the value of \<open>Crypto.randomUUID()\<close> and \<open>now\<close> that of
  \<open>Date.now()\<close>. The record is returned when the promise of \<open>saveHistory\<close> has settled.
\<close>

definition addScan :: "jsstring \<Rightarrow> jsstring \<Rightarrow> int \<Rightarrow> bool \<Rightarrow> ScanItem list world \<Rightarrow>
    (exn + ScanItem) \<times> ScanItem list world" where
  "addScan raw newId now ok w =
     (let newItem = \<lparr>id' = newId, data = raw, type = detectScanType raw, timestamp = now\<rparr>;
          updated = newItem # history w;
          w1 = setHistory updated w
      in case saveHistory ok updated w1 of
           (Inl e, w2) \<Rightarrow> (Inl e, w2)
         | (Inr u, w2) \<Rightarrow> (Inr newItem, emit Returned w2))"

definition removeScan :: "jsstring \<Rightarrow> bool \<Rightarrow> ScanItem list world \<Rightarrow>
    (exn + unit) \<times> ScanItem list world" where
  "removeScan ident ok w =
     (let updated = filter (\<lambda>item. id' item \<noteq> ident) (history w);
          w1 = setHistory updated w
      in case saveHistory ok updated w1 of
           (Inl e, w2) \<Rightarrow> (Inl e, w2)
         | (Inr u, w2) \<Rightarrow> (Inr (), emit Returned w2))"

definition clearHistory :: "bool \<Rightarrow> ScanItem list world \<Rightarrow> (exn + unit) \<times> ScanItem list world" where
  "clearHistory ok w =
     (let w1 = setHistory [] w
      in case saveHistory ok [] w1 of
           (Inl e, w2) \<Rightarrow> (Inl e, w2)
         | (Inr u, w2) \<Rightarrow> (Inr (), emit Returned w2))"

text \<open>A store with no record and nothing in storage, for the examples.\<close>

definition emptyWorld :: "ScanItem list world" where
  "emptyWorld = \<lparr>history = [], isLoading = False, storage = None, trace = []\<rparr>"

text \<open>
  Persistence that is not awaited would return the record while the write is still in
  flight: in the trace, the write would settle after the return.
\<close>

definition writeSettlesAfterReturn :: "event list \<Rightarrow> bool" where
  "writeSettlesAfterReturn tr \<longleftrightarrow>
     list_ex (\<lambda>e. e = WriteSettled True \<or> e = WriteSettled False)
       (dropWhile (\<lambda>e. e \<noteq> Returned) tr)"
section \<open>The classifier: the patterns and the rules of the specification\<close>

subsection \<open>What each pattern accepts\<close>

lemma startsWithCI_Nil [simp]: "startsWithCI [] s"
  by (simp add: startsWithCI_def js_def)

lemma startsWithCI_Cons_Nil [simp]: "\<not> startsWithCI (a # p) []"
  by (simp add: startsWithCI_def)

lemma startsWithCI_Cons_Cons [simp]:
  "startsWithCI (a # p) (c # cs) \<longleftrightarrow> ci a c \<and> startsWithCI p cs"
  by (auto simp: startsWithCI_def js_def ci_def)

lemma rmatch_One:
  "rmatch eol (One p # r) s \<longleftrightarrow> (case s of [] \<Rightarrow> False | c # cs \<Rightarrow> p c \<and> rmatch eol r cs)"
  by (cases s) simp_all

lemma rmatch_AtLeast:
  "rmatch eol (AtLeast n p # r) s \<longleftrightarrow>
     (\<exists>u v. s = u @ v \<and> n \<le> length u \<and> list_all p u \<and> rmatch eol r v)"
proof (induction s arbitrary: n)
  case Nil
  then show ?case by (cases n) auto
next
  case (Cons c cs)
  show ?case
  proof (cases n)
    case 0
    have "rmatch eol (AtLeast 0 p # r) (c # cs) \<longleftrightarrow>
        (p c \<and> (\<exists>u v. cs = u @ v \<and> list_all p u \<and> rmatch eol r v)) \<or> rmatch eol r (c # cs)"
      using Cons.IH [of 0] by simp
    also have "\<dots> \<longleftrightarrow> (\<exists>u v. c # cs = u @ v \<and> list_all p u \<and> rmatch eol r v)"
    proof
      assume "(p c \<and> (\<exists>u v. cs = u @ v \<and> list_all p u \<and> rmatch eol r v)) \<or> rmatch eol r (c # cs)"
      then show "\<exists>u v. c # cs = u @ v \<and> list_all p u \<and> rmatch eol r v"
      proof
        assume "p c \<and> (\<exists>u v. cs = u @ v \<and> list_all p u \<and> rmatch eol r v)"
        then obtain u v where "cs = u @ v" "list_all p u" "rmatch eol r v" "p c" by blast
        then have "c # cs = (c # u) @ v \<and> list_all p (c # u) \<and> rmatch eol r v" by simp
        then show ?thesis by blast
      next
        assume "rmatch eol r (c # cs)"
        then have "c # cs = [] @ (c # cs) \<and> list_all p [] \<and> rmatch eol r (c # cs)" by simp
        then show ?thesis by blast
      qed
    next
      assume "\<exists>u v. c # cs = u @ v \<and> list_all p u \<and> rmatch eol r v"
      then obtain u v where uv: "c # cs = u @ v" "list_all p u" "rmatch eol r v" by blast
      show "(p c \<and> (\<exists>u v. cs = u @ v \<and> list_all p u \<and> rmatch eol r v)) \<or> rmatch eol r (c # cs)"
      proof (cases u)
        case Nil
        with uv show ?thesis by simp
      next
        case (Cons a u')
        with uv have "p c" "cs = u' @ v" "list_all p u'" by auto
        with uv show ?thesis by blast
      qed
    qed
    finally show ?thesis using 0 by simp
  next
    case (Suc m)
    have "rmatch eol (AtLeast (Suc m) p # r) (c # cs) \<longleftrightarrow>
        p c \<and> (\<exists>u v. cs = u @ v \<and> m \<le> length u \<and> list_all p u \<and> rmatch eol r v)"
      using Cons.IH [of m] by simp
    also have "\<dots> \<longleftrightarrow>
        (\<exists>u v. c # cs = u @ v \<and> Suc m \<le> length u \<and> list_all p u \<and> rmatch eol r v)"
    proof
      assume "p c \<and> (\<exists>u v. cs = u @ v \<and> m \<le> length u \<and> list_all p u \<and> rmatch eol r v)"
      then obtain u v where "cs = u @ v" "m \<le> length u" "list_all p u" "rmatch eol r v" "p c"
        by blast
      then have "c # cs = (c # u) @ v \<and> Suc m \<le> length (c # u) \<and> list_all p (c # u) \<and>
          rmatch eol r v" by simp
      then show "\<exists>u v. c # cs = u @ v \<and> Suc m \<le> length u \<and> list_all p u \<and> rmatch eol r v"
        by blast
    next
      assume "\<exists>u v. c # cs = u @ v \<and> Suc m \<le> length u \<and> list_all p u \<and> rmatch eol r v"
      then obtain u v where uv: "c # cs = u @ v" "Suc m \<le> length u" "list_all p u"
          "rmatch eol r v" by blast
      then obtain u' where "u = c # u'" by (cases u) auto
      with uv have "p c" "cs = u' @ v" "m \<le> length u'" "list_all p u'" by auto
      with uv show "p c \<and> (\<exists>u v. cs = u @ v \<and> m \<le> length u \<and> list_all p u \<and> rmatch eol r v)"
        by blast
    qed
    finally show ?thesis using Suc by simp
  qed
qed

lemma startsWithCI_split:
  "startsWithCI (p @ q) s \<longleftrightarrow> startsWithCI p s \<and> startsWithCI q (drop (length p) s)"
proof (induction p arbitrary: s)
  case Nil
  show ?case by simp
next
  case (Cons a p)
  show ?case by (cases s) (simp_all add: Cons.IH)
qed

lemma rmatch_http_head:
  "rmatch False (One (ci CHR ''h'') # One (ci CHR ''t'') # One (ci CHR ''t'') #
      One (ci CHR ''p'') # r) s \<longleftrightarrow> startsWithCI ''http'' s \<and> rmatch False r (drop 4 s)"
  by (simp add: rmatch_One split: list.split)

lemma test_http:
  "test re_http s \<longleftrightarrow> startsWithCI ''http://'' s \<or> startsWithCI ''https://'' s"
proof -
  have a: "startsWithCI ''http://'' s \<longleftrightarrow>
      startsWithCI ''http'' s \<and> startsWithCI ''://'' (drop 4 s)"
    using startsWithCI_split [of "''http''" "''://''" s] by (simp add: eval_nat_numeral)
  have b: "startsWithCI ''https://'' s \<longleftrightarrow>
      startsWithCI ''http'' s \<and> startsWithCI ''s://'' (drop 4 s)"
    using startsWithCI_split [of "''http''" "''s://''" s] by (simp add: eval_nat_numeral)
  have c: "rmatch False [Opt (ci CHR ''s''), One (ci CHR '':''), One (ci CHR ''/''),
      One (ci CHR ''/'')] t \<longleftrightarrow> startsWithCI ''s://'' t \<or> startsWithCI ''://'' t" for t
    by (cases t) (simp_all add: rmatch_One split: list.split)
  show ?thesis
    unfolding test_def re_http_def by (simp add: rmatch_http_head c a b) blast
qed

lemma test_www: "test re_www s \<longleftrightarrow> startsWithCI ''www.'' s"
  unfolding test_def re_www_def
  by (simp add: rmatch_One split: list.split)

lemma test_mailto: "test re_mailto s \<longleftrightarrow> startsWithCI ''mailto:'' s"
  unfolding test_def re_mailto_def
  by (simp add: rmatch_One split: list.split)

lemma test_tel: "test re_tel s \<longleftrightarrow> startsWithCI ''tel:'' s"
  unfolding test_def re_tel_def
  by (simp add: rmatch_One split: list.split)

lemma test_wifi: "test re_wifi s \<longleftrightarrow> startsWithCI ''WIFI:'' s"
  unfolding test_def re_wifi_def
  by (simp add: rmatch_One split: list.split)


lemma rmatch_AtLeast_end:
  "rmatch True [AtLeast n p] s \<longleftrightarrow> n \<le> length s \<and> list_all p s"
  by (auto simp: rmatch_AtLeast)

lemma not_digit_plus: "\<not> isDigit (cu CHR ''+'')"
  by (simp add: isDigit_def cu_def)

lemma test_phone: "test re_phone s \<longleftrightarrow> phoneShape s"
proof (cases s)
  case Nil
  then show ?thesis by (simp add: test_def re_phone_def phoneShape_def)
next
  case (Cons c cs)
  have digits: "rmatch True [One isDigit, AtLeast 6 phoneChar] t \<longleftrightarrow>
      (case t of [] \<Rightarrow> False | d # rest \<Rightarrow> isDigit d \<and> 6 \<le> length rest \<and> list_all phoneChar rest)"
    for t
    by (cases t) (simp_all add: rmatch_AtLeast_end)
  show ?thesis
  proof (cases "c = cu CHR ''+''")
    case True
    with Cons show ?thesis
      by (simp add: test_def re_phone_def phoneShape_def digits lit_def not_digit_plus
          del: rmatch.simps(3))
  next
    case False
    with Cons show ?thesis
      by (simp add: test_def re_phone_def phoneShape_def digits lit_def del: rmatch.simps(3))
  qed
qed

subsection \<open>Trimming\<close>

text \<open>
  \<open>trim\<close> takes white space away at both ends and nothing else: what is left neither
  begins nor ends with white space.
\<close>

lemma trim_shape:
  "\<exists>before after. s = before @ trim s @ after \<and> list_all isWhiteSpace before \<and>
     list_all isWhiteSpace after \<and>
     (trim s \<noteq> [] \<longrightarrow> \<not> isWhiteSpace (hd (trim s)) \<and> \<not> isWhiteSpace (last (trim s)))"
proof -
  let ?P = isWhiteSpace
  define a where "a = dropWhile ?P s"
  define b where "b = dropWhile ?P (rev a)"
  have ts: "trim s = rev b" by (simp add: trim_def a_def b_def)
  have s: "s = takeWhile ?P s @ a" by (simp add: a_def)
  have "rev a = takeWhile ?P (rev a) @ b" by (simp add: b_def)
  then have a: "a = rev b @ rev (takeWhile ?P (rev a))"
    by (metis rev_append rev_rev_ident)
  have ends: "\<not> ?P (hd (rev b)) \<and> \<not> ?P (last (rev b))" if "rev b \<noteq> []"
  proof -
    from that have "b \<noteq> []" by simp
    then have "\<not> ?P (hd b)" unfolding b_def by (rule hd_dropWhile)
    then have l: "\<not> ?P (last (rev b))" using \<open>b \<noteq> []\<close> by (simp add: last_rev)
    from that have "hd (rev b @ rev (takeWhile ?P (rev a))) = hd (rev b)" by simp
    with a that have "a \<noteq> []" "hd a = hd (rev b)"
      by (metis append_is_Nil_conv, metis)
    then have "\<not> ?P (hd (rev b))" using hd_dropWhile [of ?P s] by (simp add: a_def)
    with l show ?thesis by simp
  qed
  have "s = takeWhile ?P s @ trim s @ rev (takeWhile ?P (rev a))"
    using s a ts by simp
  moreover have "list_all ?P (takeWhile ?P s)" "list_all ?P (rev (takeWhile ?P (rev a)))"
    by (auto simp: list_all_iff dest: set_takeWhileD)
  ultimately show ?thesis using ends ts by metis
qed

lemma trim_idem: "trim (trim s) = trim s"
proof -
  let ?P = isWhiteSpace
  define a where "a = dropWhile ?P s"
  define b where "b = dropWhile ?P (rev a)"
  have ts: "trim s = rev b" by (simp add: trim_def a_def b_def)
  have "rev a = takeWhile ?P (rev a) @ b" by (simp add: b_def)
  then have a: "a = rev b @ rev (takeWhile ?P (rev a))"
    by (metis rev_append rev_rev_ident)
  have c1: "dropWhile ?P (rev b) = rev b"
  proof (cases "rev b")
    case Nil
    then show ?thesis by simp
  next
    case (Cons x xs)
    with a have "a = x # (xs @ rev (takeWhile ?P (rev a)))" by simp
    then have "a \<noteq> []" "hd a = x" by (metis list.distinct(1), metis list.sel(1))
    then have "\<not> ?P x" using hd_dropWhile [of ?P s] by (simp add: a_def)
    with Cons show ?thesis by simp
  qed
  have c2: "dropWhile ?P b = b" by (simp add: b_def)
  have "trim (rev b) = rev (dropWhile ?P (rev (dropWhile ?P (rev b))))"
    by (simp only: trim_def)
  also have "\<dots> = rev (dropWhile ?P (rev (rev b)))" by (simp only: c1)
  also have "\<dots> = rev b" by (simp only: rev_rev_ident c2)
  finally show ?thesis by (simp only: ts)
qed

lemma trim_whitespace:
  assumes "list_all isWhiteSpace s"
  shows "trim s = []"
proof -
  from assms have e: "dropWhile isWhiteSpace s = []" by (simp add: list_all_iff)
  show ?thesis unfolding trim_def e by simp
qed


subsection \<open>The e-mail shape\<close>

lemma one_le_length: "1 \<le> length u \<longleftrightarrow> u \<noteq> []"
  by (cases u) simp_all

lemma rmatch_email:
  "rmatch True [AtLeast 1 notSpaceAt, One (lit CHR ''@''), AtLeast 1 notSpaceAt,
      One (lit CHR ''.''), AtLeast 1 notSpaceAt] s \<longleftrightarrow>
   (\<exists>u v w. s = u @ cu CHR ''@'' # v @ cu CHR ''.'' # w \<and> u \<noteq> [] \<and> v \<noteq> [] \<and> w \<noteq> [] \<and>
      list_all notSpaceAt u \<and> list_all notSpaceAt v \<and> list_all notSpaceAt w)"
proof -
  let ?A = notSpaceAt
  have t3: "rmatch True [One (lit CHR ''.''), AtLeast 1 ?A] x \<longleftrightarrow>
      (\<exists>w. x = cu CHR ''.'' # w \<and> w \<noteq> [] \<and> list_all ?A w)" for x
    by (cases x) (auto simp: rmatch_AtLeast_end Suc_le_eq lit_def simp del: rmatch.simps(9))
  have t2: "rmatch True [AtLeast 1 ?A, One (lit CHR ''.''), AtLeast 1 ?A] y \<longleftrightarrow>
      (\<exists>v w. y = v @ cu CHR ''.'' # w \<and> v \<noteq> [] \<and> w \<noteq> [] \<and> list_all ?A v \<and> list_all ?A w)"
    for y
    unfolding rmatch_AtLeast t3 one_le_length by blast
  have t1: "rmatch True [One (lit CHR ''@''), AtLeast 1 ?A, One (lit CHR ''.''), AtLeast 1 ?A] z
      \<longleftrightarrow> (\<exists>v w. z = cu CHR ''@'' # v @ cu CHR ''.'' # w \<and> v \<noteq> [] \<and> w \<noteq> [] \<and>
        list_all ?A v \<and> list_all ?A w)" for z
  proof (cases z)
    case Nil
    then show ?thesis by simp
  next
    case (Cons c cs)
    have "rmatch True [One (lit CHR ''@''), AtLeast 1 ?A, One (lit CHR ''.''), AtLeast 1 ?A]
        (c # cs) \<longleftrightarrow> c = cu CHR ''@'' \<and>
        rmatch True [AtLeast 1 ?A, One (lit CHR ''.''), AtLeast 1 ?A] cs"
      by (simp only: rmatch.simps lit_def)
    with Cons show ?thesis unfolding t2 by auto
  qed
  show ?thesis
    unfolding rmatch_AtLeast [of True 1 ?A "[One (lit CHR ''@''), AtLeast 1 ?A,
      One (lit CHR ''.''), AtLeast 1 ?A]" s] t1 one_le_length
    by (rule iffI) (blast+)
qed


lemma at_dot_facts:
  "cu CHR ''.'' \<noteq> cu CHR ''@''" "\<not> isWhiteSpace (cu CHR ''@'')" "\<not> isWhiteSpace (cu CHR ''.'')"
  by (simp_all add: cu_def isWhiteSpace_def)

lemma count_list_zero: "x \<notin> set xs \<Longrightarrow> count_list xs x = 0"
  by (induction xs) auto

lemma count_list_zeroD: "count_list xs x = 0 \<Longrightarrow> x \<notin> set xs"
  by (induction xs) (auto split: if_splits)

lemma count_list_app: "count_list (xs @ ys) x = count_list xs x + count_list ys x"
  by (induction xs) auto

lemma inner_member:
  assumes "x \<in> set (butlast (tl d))"
  shows "\<exists>a b. d = a @ x # b \<and> a \<noteq> [] \<and> b \<noteq> []"
proof -
  from assms obtain p q where pq: "butlast (tl d) = p @ x # q"
    by (meson split_list)
  then have "tl d \<noteq> []" by auto
  then have "tl d = (p @ x # q) @ [last (tl d)]"
    using pq append_butlast_last_id [of "tl d"] by simp
  moreover from \<open>tl d \<noteq> []\<close> have "d = hd d # tl d" by (cases d) auto
  ultimately have "d = (hd d # p) @ x # (q @ [last (tl d)])" by simp
  then show ?thesis by blast
qed

lemma emailShape_intro:
  assumes s: "s = u @ cu CHR ''@'' # v @ cu CHR ''.'' # w"
    and ne: "u \<noteq> []" "v \<noteq> []" "w \<noteq> []"
    and cls: "list_all notSpaceAt u" "list_all notSpaceAt v" "list_all notSpaceAt w"
  shows "emailShape s"
proof -
  let ?at = "cu CHR ''@''"
  have nat: "?at \<notin> set u" "?at \<notin> set v" "?at \<notin> set w"
    using cls by (auto simp: list_all_iff notSpaceAt_def lit_def)
  have nws: "\<forall>c\<in>set u \<union> set v \<union> set w. \<not> isWhiteSpace c"
    using cls by (auto simp: list_all_iff notSpaceAt_def)
  have tw: "takeWhile (\<lambda>c. c \<noteq> ?at) s = u"
    using nat(1) unfolding s by (auto simp: takeWhile_append2 takeWhile_tail)
  have dom: "drop (Suc (length u)) s = v @ cu CHR ''.'' # w"
    unfolding s by simp
  have cnt: "count_list s ?at = 1"
    unfolding s using nat by (simp add: count_list_app count_list_zero at_dot_facts)
  have ws: "\<not> list_ex isWhiteSpace s"
    unfolding s using nws by (auto simp: list_ex_iff at_dot_facts)
  obtain a v' where v: "v = a # v'" using ne(2) by (cases v) auto
  have "butlast (tl (v @ cu CHR ''.'' # w)) = v' @ cu CHR ''.'' # butlast w"
    using ne(3) by (simp add: v butlast_append)
  then have dot: "cu CHR ''.'' \<in> set (butlast (tl (v @ cu CHR ''.'' # w)))" by simp
  show ?thesis
    unfolding emailShape_def Let_def tw dom using cnt ws ne(1) dot by simp
qed

lemma emailShape_elim:
  assumes "emailShape s"
  shows "\<exists>u v w. s = u @ cu CHR ''@'' # v @ cu CHR ''.'' # w \<and> u \<noteq> [] \<and> v \<noteq> [] \<and> w \<noteq> [] \<and>
      list_all notSpaceAt u \<and> list_all notSpaceAt v \<and> list_all notSpaceAt w"
proof -
  let ?at = "cu CHR ''@''"
  let ?P = "\<lambda>c. c \<noteq> ?at"
  define u where "u = takeWhile ?P s"
  define d where "d = drop (Suc (length u)) s"
  from assms have cnt: "count_list s ?at = 1" and ws: "\<not> list_ex isWhiteSpace s"
    and une: "u \<noteq> []" and dot: "cu CHR ''.'' \<in> set (butlast (tl d))"
    by (simp_all add: emailShape_def Let_def u_def d_def)
  have "?at \<in> set s" using cnt count_list_zero [of ?at s] by auto
  then have "dropWhile ?P s \<noteq> []" by (auto simp: dropWhile_eq_Nil_conv)
  moreover from this have "hd (dropWhile ?P s) = ?at" using hd_dropWhile [of ?P s] by simp
  ultimately have dw: "dropWhile ?P s = ?at # tl (dropWhile ?P s)"
    by (cases "dropWhile ?P s") auto
  have "tl (dropWhile ?P s) = d"
    by (simp add: d_def u_def dropWhile_eq_drop drop_Suc tl_drop)
  with dw have "dropWhile ?P s = ?at # d" by simp
  then have s: "s = u @ ?at # d"
    using takeWhile_dropWhile_id [of ?P s] by (simp add: u_def)
  have "?at \<notin> set u" unfolding u_def by (auto dest: set_takeWhileD)
  then have "count_list u ?at = 0" by (rule count_list_zero)
  with cnt have "count_list d ?at = 0" by (simp add: s count_list_app)
  then have nd: "?at \<notin> set d" by (rule count_list_zeroD)
  from inner_member [OF dot] obtain v w where d: "d = v @ cu CHR ''.'' # w" "v \<noteq> []" "w \<noteq> []"
    by blast
  have "list_all notSpaceAt u" "list_all notSpaceAt v" "list_all notSpaceAt w"
    using ws nd \<open>?at \<notin> set u\<close> unfolding s d
    by (auto simp: list_all_iff list_ex_iff notSpaceAt_def lit_def)
  with s d une show ?thesis by blast
qed

lemma test_email: "test re_email s \<longleftrightarrow> emailShape s"
  unfolding test_def re_email_def
  using rmatch_email [of s] emailShape_intro [of s] emailShape_elim [of s]
  by (simp del: rmatch.simps) blast


subsection \<open>The six rules\<close>

lemma detectScanType_eq_classify: "detectScanType s = classify s"
  by (simp add: detectScanType_def classify_def Let_def test_http test_www test_mailto
      test_email test_tel test_phone test_wifi urlRule_def emailRule_def phoneRule_def
      wifiRule_def)

lemma rules_Nil: "\<not> urlRule []" "\<not> emailRule []" "\<not> phoneRule []" "\<not> wifiRule []"
  by (simp_all add: urlRule_def emailRule_def phoneRule_def wifiRule_def emailShape_def
      phoneShape_def)

text \<open>
  C1. The classifier is a total function: after trimming, it applies the six rules of the
  specification in their order, the first that matches giving the tag. Rule 1: a prefix
  \<open>http://\<close>, \<open>https://\<close> or \<open>www.\<close> in any case gives \<open>url\<close>. Rule 2: a prefix
  \<open>mailto:\<close> in any case, or the e-mail shape, gives \<open>email\<close>; the shape is a text
  without white space that has exactly one \<open>@\<close>, something before it, and after it a
  domain with a dot that is neither its first nor its last character. Rule 3: a prefix
  \<open>tel:\<close> in any case, or the phone shape, gives \<open>phone\<close>; the shape is an optional
  \<open>+\<close>, a digit, then six or more characters, each a digit, a hyphen, a parenthesis or a
  space, where a space is any character of the class \<open>\s\<close> (the white space that
  trimming removes). Rule 4: a prefix \<open>WIFI:\<close> in any case gives \<open>wifi\<close>. Rule 5: any
  other text that is not empty gives \<open>text\<close>. Rule 6: the empty text gives \<open>unknown\<close>.
  So each tag is given exactly when its rule is the first that applies, and the empty
  string and every string of white space only give \<open>unknown\<close>.
\<close>

theorem detectScanType_rules:
  "detectScanType s = classify s \<and>
   (detectScanType s = Url \<longleftrightarrow> urlRule (trim s)) \<and>
   (detectScanType s = Email \<longleftrightarrow> \<not> urlRule (trim s) \<and> emailRule (trim s)) \<and>
   (detectScanType s = Phone \<longleftrightarrow>
      \<not> urlRule (trim s) \<and> \<not> emailRule (trim s) \<and> phoneRule (trim s)) \<and>
   (detectScanType s = Wifi \<longleftrightarrow>
      \<not> urlRule (trim s) \<and> \<not> emailRule (trim s) \<and> \<not> phoneRule (trim s) \<and> wifiRule (trim s)) \<and>
   (detectScanType s = Text \<longleftrightarrow>
      \<not> urlRule (trim s) \<and> \<not> emailRule (trim s) \<and> \<not> phoneRule (trim s) \<and>
      \<not> wifiRule (trim s) \<and> trim s \<noteq> []) \<and>
   (detectScanType s = Unknown \<longleftrightarrow> trim s = []) \<and>
   (list_all isWhiteSpace s \<longrightarrow> detectScanType s = Unknown)"
proof -
  have e: "detectScanType s = classify s" by (rule detectScanType_eq_classify)
  have u: "classify s = Unknown \<longleftrightarrow> trim s = []"
    using rules_Nil by (auto simp: classify_def Let_def)
  have w: "trim s = []" if "list_all isWhiteSpace s"
    using that by (rule trim_whitespace)
  have tags: "(classify s = Url \<longleftrightarrow> urlRule (trim s)) \<and>
      (classify s = Email \<longleftrightarrow> \<not> urlRule (trim s) \<and> emailRule (trim s)) \<and>
      (classify s = Phone \<longleftrightarrow>
        \<not> urlRule (trim s) \<and> \<not> emailRule (trim s) \<and> phoneRule (trim s)) \<and>
      (classify s = Wifi \<longleftrightarrow>
        \<not> urlRule (trim s) \<and> \<not> emailRule (trim s) \<and> \<not> phoneRule (trim s) \<and>
        wifiRule (trim s)) \<and>
      (classify s = Text \<longleftrightarrow>
        \<not> urlRule (trim s) \<and> \<not> emailRule (trim s) \<and> \<not> phoneRule (trim s) \<and>
        \<not> wifiRule (trim s) \<and> trim s \<noteq> [])"
    by (simp add: classify_def Let_def)
  from u w have "list_all isWhiteSpace s \<longrightarrow> classify s = Unknown" by simp
  with tags u show ?thesis unfolding e by blast
qed

theorem detectScanType_rules_witness:
  "classify (js ''WwW.john@x.co'') = Url \<and> detectScanType (js ''WwW.john@x.co'') = Url \<and>
   list_all isWhiteSpace (js '' '' @ [0x00A0, 0x2028]) \<and>
   detectScanType (js '' '' @ [0x00A0, 0x2028]) = Unknown"
proof -
  have a: "classify (js ''WwW.john@x.co'') = Url" by code_simp
  have b: "list_all isWhiteSpace (js '' '' @ [0x00A0, 0x2028])" by code_simp
  have c: "detectScanType (js ''WwW.john@x.co'') = Url"
    using detectScanType_rules [of "js ''WwW.john@x.co''"] a by simp
  have d: "detectScanType (js '' '' @ [0x00A0, 0x2028]) = Unknown"
    using detectScanType_rules [of "js '' '' @ [0x00A0, 0x2028]"] b by blast
  from a b c d show ?thesis by blast
qed

text \<open>The scenarios of the specification, and a text that matches two rules.\<close>

lemma detectScanType_scenarios:
  "detectScanType (js ''https://example.com'') = Url"
  "detectScanType (js ''WIFI:T:WPA;S:MyNet;P:pass;;'') = Wifi"
  "detectScanType (js ''john@x.co'') = Email"
  "detectScanType (js ''+1 555-123-4567'') = Phone"
  "detectScanType (js ''hello world'') = Text"
  "detectScanType [] = Unknown"
  "detectScanType (js ''www.john@x.co'') = Url"
  by code_simp+

text \<open>
  The class of the phone pattern has \<open>\s\<close>: a TAB or a line break inside the number is
  accepted as a space is.
\<close>

lemma detectScanType_phone_tab:
  "detectScanType (js ''555'' @ [0x0009] @ js ''123'' @ [0x000A] @ js ''4567'') = Phone"
  by code_simp

subsection \<open>The two shapes are matched against the whole text\<close>

lemma email_one_outsider:
  assumes "test re_email e"
  shows "length (filter (\<lambda>c. \<not> notSpaceAt c) e) = 1"
proof -
  from assms obtain u v w where e: "e = u @ cu CHR ''@'' # v @ cu CHR ''.'' # w"
    and cls: "list_all notSpaceAt u" "list_all notSpaceAt v" "list_all notSpaceAt w"
    unfolding test_def re_email_def using rmatch_email [of e] by (auto simp del: rmatch.simps)
  have "filter (\<lambda>c. \<not> notSpaceAt c) x = []" if "list_all notSpaceAt x" for x
    using that by (induction x) auto
  with cls show ?thesis
    unfolding e by (simp add: notSpaceAt_def lit_def at_dot_facts)
qed

lemma email_anchored:
  assumes "test re_email e" "\<not> notSpaceAt x"
  shows "\<not> test re_email (e @ x # rest)"
proof
  assume "test re_email (e @ x # rest)"
  then have "length (filter (\<lambda>c. \<not> notSpaceAt c) (e @ x # rest)) = 1"
    by (rule email_one_outsider)
  with email_one_outsider [OF assms(1)] assms(2) show False by simp
qed

lemma phone_anchored:
  assumes "test re_phone p" "\<not> phoneChar x"
  shows "\<not> test re_phone (p @ x # rest)" "\<not> test re_tel (p @ x # rest)"
proof -
  from assms(1) have ps: "phoneShape p" by (simp add: test_phone)
  then obtain c cs where p: "p = c # cs" by (cases p) (auto simp: phoneShape_def)
  from ps obtain d r where dp: "dropPlus p = d # r" "isDigit d" "list_all phoneChar r"
    by (auto simp: phoneShape_def split: list.splits)
  have "dropPlus (p @ x # rest) = d # (r @ x # rest)"
    using dp(1) by (simp add: p split: if_splits)
  with assms(2) show "\<not> test re_phone (p @ x # rest)"
    by (simp add: test_phone phoneShape_def)
  have "c = cu CHR ''+'' \<or> isDigit c"
    using dp(1,2) by (auto simp: p split: if_splits)
  then have "\<not> ci CHR ''t'' c"
    by (auto simp: ci_def cu_def asciiUpper_def isDigit_def)
  then show "\<not> test re_tel (p @ x # rest)"
    by (simp add: test_tel p)
qed

text \<open>
  C9. The two shape patterns end with \<open>$\<close>. When the trimmed text is an e-mail shape
  followed by a character that the e-mail shape does not admit (white space or \<open>@\<close>) and
  anything after it, the e-mail pattern does not match, and the tag is \<open>email\<close> only by
  the prefix \<open>mailto:\<close>. When it is a phone shape followed by a character that the phone
  shape does not admit and anything after it, the phone pattern does not match and the
  tag is not \<open>phone\<close>. \<open>john@x.co extra\<close> is classified as \<open>text\<close>.
\<close>

theorem shape_rules_anchored:
  assumes "trim s = body @ x # rest"
  shows "(test re_email body \<and> \<not> notSpaceAt x \<longrightarrow>
           \<not> test re_email (trim s) \<and> (detectScanType s = Email \<longrightarrow> test re_mailto (trim s))) \<and>
         (test re_phone body \<and> \<not> phoneChar x \<longrightarrow>
           \<not> test re_phone (trim s) \<and> detectScanType s \<noteq> Phone)"
proof (intro conjI impI)
  assume a: "test re_email body \<and> \<not> notSpaceAt x"
  then show "\<not> test re_email (trim s)"
    unfolding assms using email_anchored by blast
  then show "test re_mailto (trim s)" if "detectScanType s = Email"
    using that by (auto simp: detectScanType_def Let_def split: if_splits)
next
  assume a: "test re_phone body \<and> \<not> phoneChar x"
  then show "\<not> test re_phone (trim s)"
    unfolding assms using phone_anchored(1) by blast
  moreover from a have "\<not> test re_tel (trim s)"
    unfolding assms using phone_anchored(2) by blast
  ultimately show "detectScanType s \<noteq> Phone"
    by (auto simp: detectScanType_def Let_def split: if_splits)
qed

theorem shape_rules_anchored_witness:
  "trim (js ''john@x.co extra'') = js ''john@x.co'' @ cu CHR '' '' # js ''extra'' \<and>
   test re_email (js ''john@x.co'') \<and> \<not> notSpaceAt (cu CHR '' '') \<and>
   \<not> test re_email (trim (js ''john@x.co extra'')) \<and>
   detectScanType (js ''john@x.co extra'') = Text \<and>
   trim (js ''+1 555-123-4567 x'') = js ''+1 555-123-4567 '' @ cu CHR ''x'' # [] \<and>
   test re_phone (js ''+1 555-123-4567 '') \<and> \<not> phoneChar (cu CHR ''x'') \<and>
   \<not> test re_phone (trim (js ''+1 555-123-4567 x'')) \<and>
   detectScanType (js ''+1 555-123-4567 x'') \<noteq> Phone"
proof -
  have e1: "trim (js ''john@x.co extra'') = js ''john@x.co'' @ cu CHR '' '' # js ''extra''"
    by code_simp
  have e2: "test re_email (js ''john@x.co'')" by code_simp
  have e3: "\<not> notSpaceAt (cu CHR '' '')" by code_simp
  have e4: "detectScanType (js ''john@x.co extra'') = Text" by code_simp
  have p1: "trim (js ''+1 555-123-4567 x'') = js ''+1 555-123-4567 '' @ cu CHR ''x'' # []"
    by code_simp
  have p2: "test re_phone (js ''+1 555-123-4567 '')" by code_simp
  have p3: "\<not> phoneChar (cu CHR ''x'')" by code_simp
  show ?thesis
    using shape_rules_anchored [OF e1] shape_rules_anchored [OF p1] e1 e2 e3 e4 p1 p2 p3
    by simp
qed

section \<open>The history store: the three mutations\<close>

subsection \<open>What each operation returns and leaves behind\<close>

lemma saveHistory_eq:
  "saveHistory ok items w =
     (Inr (), w\<lparr>storage := (if ok then Some (JSON_stringify items) else storage w),
                trace := trace w @ [WriteIssued, WriteSettled ok] @ (if ok then [] else [ErrorLogged])\<rparr>)"
  by (simp add: saveHistory_def AsyncStorage_setItem_def emit_def console_error_def)

lemma addScan_eq:
  "addScan raw newId now ok w =
     (Inr \<lparr>id' = newId, data = raw, type = detectScanType raw, timestamp = now\<rparr>,
      w\<lparr>history := \<lparr>id' = newId, data = raw, type = detectScanType raw, timestamp = now\<rparr> # history w,
        storage := (if ok then Some (JSON_stringify
            (\<lparr>id' = newId, data = raw, type = detectScanType raw, timestamp = now\<rparr> # history w))
          else storage w),
        trace := trace w @ [HistorySet, WriteIssued, WriteSettled ok] @
          (if ok then [] else [ErrorLogged]) @ [Returned]\<rparr>)"
  by (simp add: addScan_def Let_def saveHistory_eq setHistory_def emit_def)

lemma removeScan_eq:
  "removeScan ident ok w =
     (Inr (),
      w\<lparr>history := filter (\<lambda>item. id' item \<noteq> ident) (history w),
        storage := (if ok then Some (JSON_stringify (filter (\<lambda>item. id' item \<noteq> ident) (history w)))
          else storage w),
        trace := trace w @ [HistorySet, WriteIssued, WriteSettled ok] @
          (if ok then [] else [ErrorLogged]) @ [Returned]\<rparr>)"
  by (simp add: removeScan_def Let_def saveHistory_eq setHistory_def emit_def)

lemma clearHistory_eq:
  "clearHistory ok w =
     (Inr (),
      w\<lparr>history := [],
        storage := (if ok then Some (JSON_stringify []) else storage w),
        trace := trace w @ [HistorySet, WriteIssued, WriteSettled ok] @
          (if ok then [] else [ErrorLogged]) @ [Returned]\<rparr>)"
  by (simp add: clearHistory_def Let_def saveHistory_eq setHistory_def emit_def)

subsection \<open>add\<close>

lemma detectScanType_trim: "detectScanType (trim raw) = detectScanType raw"
  by (simp add: detectScanType_def trim_idem)

text \<open>
  C2. For every string and every prior state, \<open>addScan\<close> returns a record whose payload
  is the string itself, not trimmed, whose category is the classifier applied to the
  trimmed string, and which is at index 0 of the new history, the earlier records
  following it unchanged.
\<close>

theorem addScan_record:
  "\<exists>item w'. addScan raw newId now ok w = (Inr item, w') \<and> data item = raw \<and>
     type item = detectScanType (trim raw) \<and> id' item = newId \<and> timestamp item = now \<and>
     history w' = item # history w \<and> history w' ! 0 = item"
  by (simp add: addScan_eq detectScanType_trim)

theorem addScan_record_witness:
  "\<exists>item w'. addScan (js ''  hello world '') (js ''u-1'') 1700000000000 True emptyWorld = (Inr item, w') \<and>
     data item = js ''  hello world '' \<and> type item = Text \<and> history w' = [item]"
proof -
  have "detectScanType (trim (js ''  hello world '')) = Text" by code_simp
  moreover have "history emptyWorld = []" by (simp add: emptyWorld_def)
  ultimately show ?thesis
    using addScan_record [of "js ''  hello world ''" "js ''u-1''" 1700000000000 True emptyWorld]
    by auto
qed

subsection \<open>remove\<close>

lemma filter_distinct_id:
  assumes "distinct (map f xs)" "a \<in> f ` set xs"
  shows "Suc (length (filter (\<lambda>x. f x \<noteq> a) xs)) = length xs"
  using assms
proof (induction xs)
  case Nil
  then show ?case by simp
next
  case (Cons x xs)
  show ?case
  proof (cases "f x = a")
    case True
    with Cons.prems have "a \<notin> f ` set xs" by auto
    then have "filter (\<lambda>x. f x \<noteq> a) xs = xs" by (auto simp: filter_id_conv)
    with True show ?thesis by simp
  next
    case False
    with Cons show ?thesis by auto
  qed
qed

text \<open>
  C5. After \<open>removeScan\<close> the given id no longer occurs. In a history of the data model,
  where no two records share an id, a record with the id being present, the history
  is shorter by exactly one. When no record has the id, the history is unchanged. No
  error is raised, and removing the same id again changes nothing.
\<close>

theorem removeScan_present_absent:
  "\<exists>w'. removeScan ident ok w = (Inr (), w') \<and>
     ident \<notin> id' ` set (history w') \<and>
     (distinct (map id' (history w)) \<and> ident \<in> id' ` set (history w) \<longrightarrow>
        Suc (length (history w')) = length (history w)) \<and>
     (ident \<notin> id' ` set (history w) \<longrightarrow> history w' = history w) \<and>
     history (snd (removeScan ident ok' w')) = history w'"
proof -
  let ?h = "filter (\<lambda>item. id' item \<noteq> ident) (history w)"
  have a: "Suc (length ?h) = length (history w)"
    if "distinct (map id' (history w))" "ident \<in> id' ` set (history w)"
    using filter_distinct_id [OF that] .
  have b: "ident \<notin> id' ` set ?h" by auto
  have c: "?h = history w" if "ident \<notin> id' ` set (history w)"
    using that by (auto simp: filter_id_conv)
  show ?thesis
    using a b c by (simp add: removeScan_eq)
qed

theorem removeScan_present_absent_witness:
  "distinct (map id' [\<lparr>id' = js ''a'', data = js ''x'', type = Text, timestamp = 2\<rparr>,
      \<lparr>id' = js ''b'', data = js ''y'', type = Text, timestamp = 1\<rparr>]) \<and>
   history (snd (removeScan (js ''a'') True (emptyWorld\<lparr>history :=
     [\<lparr>id' = js ''a'', data = js ''x'', type = Text, timestamp = 2\<rparr>,
      \<lparr>id' = js ''b'', data = js ''y'', type = Text, timestamp = 1\<rparr>]\<rparr>))) =
     [\<lparr>id' = js ''b'', data = js ''y'', type = Text, timestamp = 1\<rparr>] \<and>
   history (snd (removeScan (js ''c'') True (emptyWorld\<lparr>history :=
     [\<lparr>id' = js ''a'', data = js ''x'', type = Text, timestamp = 2\<rparr>,
      \<lparr>id' = js ''b'', data = js ''y'', type = Text, timestamp = 1\<rparr>]\<rparr>))) =
     [\<lparr>id' = js ''a'', data = js ''x'', type = Text, timestamp = 2\<rparr>,
      \<lparr>id' = js ''b'', data = js ''y'', type = Text, timestamp = 1\<rparr>]"
proof -
  let ?h = "[\<lparr>id' = js ''a'', data = js ''x'', type = Text, timestamp = 2\<rparr>,
      \<lparr>id' = js ''b'', data = js ''y'', type = Text, timestamp = 1\<rparr>]"
  let ?w = "emptyWorld\<lparr>history := ?h\<rparr>"
  have ne: "js ''a'' \<noteq> js ''b''" "js ''c'' \<noteq> js ''a''" "js ''c'' \<noteq> js ''b''"
    by (simp_all add: js_def cu_def)
  have d: "distinct (map id' (history ?w))" using ne by simp
  have absent: "js ''c'' \<notin> id' ` set (history ?w)" using ne by simp
  have present: "js ''a'' \<in> id' ` set (history ?w)" by simp
  from removeScan_present_absent [of "js ''c''" True ?w True] absent
  have c: "history (snd (removeScan (js ''c'') True ?w)) = ?h" by auto
  from removeScan_present_absent [of "js ''a''" True ?w True] present d
  have "Suc (length (history (snd (removeScan (js ''a'') True ?w)))) = length ?h" by auto
  moreover have "history (snd (removeScan (js ''a'') True ?w)) =
      [\<lparr>id' = js ''b'', data = js ''y'', type = Text, timestamp = 1\<rparr>]"
    using ne by (simp add: removeScan_eq)
  ultimately show ?thesis using d c by simp
qed

text \<open>
  C10. \<open>removeScan\<close> leaves the records with another id as they are, each as often as
  before and in the same order: the history restricted to the other ids is the same
  list before and after, and the new history is a subsequence of the old one.
\<close>

theorem removeScan_frame:
  "\<exists>w'. removeScan ident ok w = (Inr (), w') \<and>
     filter (\<lambda>r. id' r \<noteq> ident) (history w') = filter (\<lambda>r. id' r \<noteq> ident) (history w) \<and>
     subseq (history w') (history w) \<and>
     (\<forall>r. id' r \<noteq> ident \<longrightarrow> count_list (history w') r = count_list (history w) r)"
proof -
  have "count_list (filter P xs) r = count_list xs r" if "P r" for P and xs :: "ScanItem list" and r
    using that by (induction xs) auto
  then show ?thesis by (simp add: removeScan_eq)
qed

theorem removeScan_frame_witness:
  "filter (\<lambda>r. id' r \<noteq> js ''b'')
     (history (snd (removeScan (js ''b'') True (emptyWorld\<lparr>history :=
       [\<lparr>id' = js ''a'', data = js ''x'', type = Text, timestamp = 3\<rparr>,
        \<lparr>id' = js ''b'', data = js ''y'', type = Url, timestamp = 2\<rparr>,
        \<lparr>id' = js ''c'', data = js ''z'', type = Wifi, timestamp = 1\<rparr>]\<rparr>)))) =
     [\<lparr>id' = js ''a'', data = js ''x'', type = Text, timestamp = 3\<rparr>,
      \<lparr>id' = js ''c'', data = js ''z'', type = Wifi, timestamp = 1\<rparr>]"
proof -
  have ne: "js ''a'' \<noteq> js ''b''" "js ''c'' \<noteq> js ''b''"
    by (simp_all add: js_def cu_def)
  show ?thesis
    using removeScan_frame [of "js ''b''" True "emptyWorld\<lparr>history :=
       [\<lparr>id' = js ''a'', data = js ''x'', type = Text, timestamp = 3\<rparr>,
        \<lparr>id' = js ''b'', data = js ''y'', type = Url, timestamp = 2\<rparr>,
        \<lparr>id' = js ''c'', data = js ''z'', type = Wifi, timestamp = 1\<rparr>]\<rparr>"] ne
    by auto
qed

subsection \<open>clear\<close>

text \<open>
  C6. \<open>clearHistory\<close> leaves the history empty whatever it was, and a second call leaves
  the state of the first: the history and the readiness flag are the same, and so is
  the stored snapshot when the first write succeeded.
\<close>

theorem clearHistory_idempotent:
  "\<exists>w1 w2. clearHistory ok1 w = (Inr (), w1) \<and> history w1 = [] \<and>
     clearHistory ok2 w1 = (Inr (), w2) \<and> history w2 = history w1 \<and>
     isLoading w2 = isLoading w1 \<and> (ok1 \<longrightarrow> storage w2 = storage w1)"
  by (simp add: clearHistory_eq)

theorem clearHistory_idempotent_witness:
  "history (snd (clearHistory True (emptyWorld\<lparr>history :=
       [\<lparr>id' = js ''a'', data = js ''x'', type = Text, timestamp = 3\<rparr>]\<rparr>))) = [] \<and>
   storage (snd (clearHistory True (snd (clearHistory True (emptyWorld\<lparr>history :=
       [\<lparr>id' = js ''a'', data = js ''x'', type = Text, timestamp = 3\<rparr>]\<rparr>))))) =
   storage (snd (clearHistory True (emptyWorld\<lparr>history :=
       [\<lparr>id' = js ''a'', data = js ''x'', type = Text, timestamp = 3\<rparr>]\<rparr>)))"
  using clearHistory_idempotent [of True "emptyWorld\<lparr>history :=
       [\<lparr>id' = js ''a'', data = js ''x'', type = Text, timestamp = 3\<rparr>]\<rparr>" True]
  by auto

subsection \<open>A write that fails\<close>

text \<open>
  C8. When the write to storage fails, each of the three mutations still returns
  normally: the failure is caught and logged, the history in memory has the change, and
  the stored snapshot is the old one.
\<close>

theorem write_failure_contained:
  "(\<exists>item w'. addScan raw newId now False w = (Inr item, w') \<and>
      history w' = item # history w \<and> storage w' = storage w \<and> ErrorLogged \<in> set (trace w')) \<and>
   (\<exists>w'. removeScan ident False w = (Inr (), w') \<and>
      history w' = filter (\<lambda>item. id' item \<noteq> ident) (history w) \<and> storage w' = storage w \<and>
      ErrorLogged \<in> set (trace w')) \<and>
   (\<exists>w'. clearHistory False w = (Inr (), w') \<and> history w' = [] \<and> storage w' = storage w \<and>
      ErrorLogged \<in> set (trace w'))"
  by (simp add: addScan_eq removeScan_eq clearHistory_eq)

theorem write_failure_contained_witness:
  "(\<exists>item w'. addScan (js ''tel:112'') (js ''u-2'') 5 False emptyWorld = (Inr item, w') \<and>
      history w' = [item] \<and> type item = Phone \<and> storage w' = None)"
proof -
  have "detectScanType (js ''tel:112'') = Phone" by code_simp
  then show ?thesis
    using write_failure_contained [of "js ''tel:112''" "js ''u-2''" 5 emptyWorld]
    by (auto simp: emptyWorld_def addScan_eq)
qed

subsection \<open>When add returns\<close>

text \<open>
  C3, as the code has it. \<open>addScan\<close> awaits \<open>saveHistory\<close>: the history in memory is set
  first, then the write is issued, and the record is returned only after the write has
  settled, with success or with a failure that is logged. The write never settles after
  the return.
\<close>

theorem addScan_returns_after_write:
  "\<exists>item w'. addScan raw newId now ok w = (Inr item, w') \<and>
     trace w' = trace w @ [HistorySet, WriteIssued, WriteSettled ok] @
       (if ok then [] else [ErrorLogged]) @ [Returned] \<and>
     \<not> writeSettlesAfterReturn (drop (length (trace w)) (trace w'))"
  by (cases ok) (simp_all add: addScan_eq writeSettlesAfterReturn_def)

theorem addScan_returns_after_write_witness:
  "trace (snd (addScan (js ''hello'') (js ''u-1'') 17 True emptyWorld)) =
     [HistorySet, WriteIssued, WriteSettled True, Returned]"
  using addScan_returns_after_write [of "js ''hello''" "js ''u-1''" 17 True emptyWorld]
  by (auto simp: emptyWorld_def)

text \<open>
  C3, as the specification has it (the record is returned while the write may still be
  in flight), fails: in this call the write has settled before the return.
\<close>

theorem addScan_not_fire_and_forget:
  "\<not> writeSettlesAfterReturn (trace (snd (addScan (js ''hello'') (js ''u-1'') 17 True emptyWorld)))"
  by (simp add: addScan_eq writeSettlesAfterReturn_def emptyWorld_def)

subsection \<open>The ids stay distinct\<close>

lemma addScan_distinct:
  assumes "distinct (map id' (history w))" "newId \<notin> id' ` set (history w)"
  shows "distinct (map id' (history (snd (addScan raw newId now ok w))))"
  using assms by (simp add: addScan_eq)

lemma removeScan_distinct:
  assumes "distinct (map id' (history w))"
  shows "distinct (map id' (history (snd (removeScan ident ok w))))"
  using assms by (simp add: removeScan_eq distinct_map_filter)

lemma clearHistory_distinct: "distinct (map id' (history (snd (clearHistory ok w))))"
  by (simp add: clearHistory_eq)

section \<open>Writing a snapshot and reading it back\<close>

subsection \<open>Decimal digits\<close>

lemma below10: "d < 10 \<Longrightarrow> d \<in> {0, 1, 2, 3, 4, 5, 6, 7, 8, 9::nat}"
  by simp arith

lemma digit_isDigit:
  assumes "d < 10"
  shows "isDigit (0x30 + of_nat d)"
proof -
  have *: "isDigit (0x30 + of_nat k)" if "k \<in> {0, 1, 2, 3, 4, 5, 6, 7, 8, 9::nat}" for k
    using that by (elim insertE emptyE) (simp_all add: isDigit_def)
  show ?thesis by (rule * [OF below10 [OF assms]])
qed

lemma digit_value:
  assumes "d < 10"
  shows "digitValue (0x30 + of_nat d) = d"
proof -
  have *: "digitValue (0x30 + of_nat k) = k" if "k \<in> {0, 1, 2, 3, 4, 5, 6, 7, 8, 9::nat}" for k
    using that by (elim insertE emptyE) (simp_all add: digitValue_def)
  show ?thesis by (rule * [OF below10 [OF assms]])
qed

lemma digit_zero:
  assumes "d < 10"
  shows "(of_nat d = (0 :: code_unit)) = (d = 0)"
proof -
  have *: "(of_nat k = (0 :: code_unit)) = (k = 0)"
    if "k \<in> {0, 1, 2, 3, 4, 5, 6, 7, 8, 9::nat}" for k
    using that by (elim insertE emptyE) simp_all
  show ?thesis by (rule * [OF below10 [OF assms]])
qed

lemma showNat_nonempty: "showNat n \<noteq> []"
  by (subst showNat.simps) simp

lemma showNat_digits: "list_all isDigit (showNat n)"
proof (induction n rule: showNat.induct)
  case (1 n)
  show ?case
  proof (cases "n < 10")
    case True
    then show ?thesis by (subst showNat.simps) (simp add: digit_isDigit)
  next
    case False
    with 1 show ?thesis by (subst showNat.simps) (simp add: digit_isDigit)
  qed
qed

lemma parseNat_snoc: "parseNat (ds @ [d]) = 10 * parseNat ds + digitValue d"
  by (simp add: parseNat_def)

lemma parseNat_showNat: "parseNat (showNat n) = n"
proof (induction n rule: showNat.induct)
  case (1 n)
  show ?case
  proof (cases "n < 10")
    case True
    then show ?thesis by (subst showNat.simps) (simp add: parseNat_def digit_value)
  next
    case False
    with 1 show ?thesis by (subst showNat.simps) (simp add: parseNat_snoc digit_value)
  qed
qed

lemma showNat_hd: "0 < n \<Longrightarrow> hd (showNat n) \<noteq> 0x30"
proof (induction n rule: showNat.induct)
  case (1 n)
  show ?case
  proof (cases "n < 10")
    case True
    with 1 show ?thesis by (subst showNat.simps) (simp add: digit_zero)
  next
    case False
    then have "0 < n div 10" by simp
    with 1 False have "hd (showNat (n div 10)) \<noteq> 0x30" by simp
    with False show ?thesis by (subst showNat.simps) (simp add: showNat_nonempty)
  qed
qed

lemma showNat_length: "1 < length (showNat n) \<Longrightarrow> 0 < n"
  by (subst (asm) showNat.simps) (auto split: if_splits)

lemma isDigit_not_minus: "isDigit c \<Longrightarrow> c \<noteq> cu CHR ''-''"
  by (auto simp: isDigit_def cu_def)

lemma showNat_hd_digit: "isDigit (hd (showNat n))"
  using showNat_digits [of n] showNat_nonempty [of n] by (cases "showNat n") simp_all

lemma takeWhile_all: "list_all P xs \<Longrightarrow> takeWhile P xs = xs"
  by (simp add: list_all_iff)

lemma dropWhile_all: "list_all P xs \<Longrightarrow> dropWhile P xs = []"
  by (simp add: list_all_iff)

lemma numberValue_showNat: "numberValue (showNat n) = Some (JNumber (int n))"
proof -
  let ?s = "showNat n"
  have a: "hd ?s \<noteq> cu CHR ''-''" using showNat_hd_digit isDigit_not_minus by blast
  have b: "\<not> (1 < length ?s \<and> hd ?s = cu CHR ''0'')"
    using showNat_hd [of n] showNat_length [of n] by (auto simp: cu_def)
  show ?thesis
    unfolding numberValue_def Let_def
    using a b showNat_nonempty [of n]
    by (simp add: takeWhile_all [OF showNat_digits] dropWhile_all [OF showNat_digits]
        parseNat_showNat)
qed

lemma numberValue_minus_showNat:
  "numberValue (cu CHR ''-'' # showNat n) = Some (JNumber (- int n))"
proof -
  let ?s = "showNat n"
  have b: "\<not> (1 < length ?s \<and> hd ?s = cu CHR ''0'')"
    using showNat_hd [of n] showNat_length [of n] by (auto simp: cu_def)
  show ?thesis
    unfolding numberValue_def Let_def
    using b showNat_nonempty [of n]
    by (simp add: takeWhile_all [OF showNat_digits] dropWhile_all [OF showNat_digits]
        parseNat_showNat)
qed

lemma numberValue_toString: "numberValue (Number_toString n) = Some (JNumber n)"
  by (simp add: Number_toString_def numberValue_showNat numberValue_minus_showNat)

subsection \<open>Hexadecimal escapes\<close>

lemma hex_recompose_nat:
  "16 * (16 * (16 * (n div 4096) + n div 256 mod 16) + n div 16 mod 16) + n mod 16 = (n::nat)"
proof -
  have a: "n div 256 = n div 16 div 16" "n div 4096 = n div 16 div 16 div 16"
    by (simp_all add: div_mult2_eq)
  show ?thesis unfolding a by (simp only: mult_div_mod_eq)
qed

lemma hex_digits_small:
  fixes c :: code_unit
  shows "unat c div 4096 < 16" "unat c div 256 mod 16 < 16" "unat c div 16 mod 16 < 16"
    "unat c mod 16 < 16"
proof -
  have "unat c < 65536" using unsigned_less [of c, where 'a = nat] by simp
  then show "unat c div 4096 < 16" by simp
qed simp_all

lemma below16: "d < 16 \<Longrightarrow> d \<in> {0, 1, 2, 3, 4, 5, 6, 7, 8, 9, 10, 11, 12, 13, 14, 15::nat}"
  by simp arith

lemma hexValue_hexDigit:
  assumes "d < 16"
  shows "hexValue (hexDigit d) = Some d"
proof -
  have *: "hexValue (hexDigit k) = Some k"
    if "k \<in> {0, 1, 2, 3, 4, 5, 6, 7, 8, 9, 10, 11, 12, 13, 14, 15::nat}" for k
    using that by (elim insertE emptyE) (simp_all add: hexValue_def hexDigit_def)
  show ?thesis by (rule * [OF below16 [OF assms]])
qed

subsection \<open>The lexer on a quoted string\<close>

lemma prepend_Nil [simp]: "prepend [] r = r"
  by (cases r) (simp_all add: prepend_def)

lemma prepend_prepend [simp]: "prepend ts (prepend us r) = prepend (ts @ us) r"
  by (cases r) (simp_all add: prepend_def)

lemma prepend_Some [simp]: "prepend ts (Some us) = Some (ts @ us)"
  by (simp add: prepend_def)

lemma prepend_None [simp]: "prepend ts None = None"
  by (simp add: prepend_def)

lemma lex_unicodeEscape:
  "tokenize (LString acc) (unicodeEscape c @ r) = tokenize (LString (c # acc)) r"
proof -
  have v: "of_nat (16 * (16 * (16 * (unat c div 4096) + unat c div 256 mod 16) +
      unat c div 16 mod 16) + unat c mod 16) = c"
    by (simp only: hex_recompose_nat of_nat_unat) simp
  show ?thesis
    unfolding unicodeEscape_def
    using v by (simp add: hexValue_hexDigit hex_digits_small cu_def)
qed


lemma lex_quoteUnit:
  "tokenize (LString acc) (quoteUnit c @ r) = tokenize (LString (c # acc)) r"
  unfolding quoteUnit_def
  by (simp add: lex_unicodeEscape unescape_def cu_def)

lemma lex_surrogate_raw:
  assumes "isLeadSurrogate c \<or> isTrailSurrogate c"
  shows "tokenize (LString acc) (c # r) = tokenize (LString (c # acc)) r"
proof -
  have "0xD800 \<le> c" if "0xDC00 \<le> c"
  proof -
    have "(0xD800 :: code_unit) \<le> 0xDC00" by simp
    then show ?thesis using that by (rule order_trans)
  qed
  with assms have "0xD800 \<le> c"
    by (auto simp: isLeadSurrogate_def isTrailSurrogate_def)
  then have "c \<noteq> 0x22" "c \<noteq> 0x5C" "\<not> c < 0x20"
    by (auto simp: word_le_nat_alt word_less_nat_alt)
  then show ?thesis by (simp add:)
qed

lemma lex_quoteChars:
  "tokenize (LString acc) (quoteChars s @ 0x22 # r) =
     prepend [TValue (JString (rev acc @ s))] (tokenize LIdle r)"
proof (induction s arbitrary: acc rule: quoteChars.induct)
  case 1
  show ?case by simp
next
  case (2 c)
  show ?case by (simp add: lex_quoteUnit)
next
  case (3 c d cs)
  show ?case
  proof (cases "isLeadSurrogate c \<and> isTrailSurrogate d")
    case True
    then have "tokenize (LString acc) (quoteChars (c # d # cs) @ 0x22 # r) =
        tokenize (LString (d # c # acc)) (quoteChars cs @ 0x22 # r)"
      by (simp add: lex_surrogate_raw del: tokenize.simps)
    also have "\<dots> = prepend [TValue (JString (rev (d # c # acc) @ cs))] (tokenize LIdle r)"
      using 3(1) [OF True] .
    finally show ?thesis by simp
  next
    case False
    then have "quoteChars (c # d # cs) = quoteUnit c @ quoteChars (d # cs)"
      by (simp only: quoteChars.simps if_False)
    then have "tokenize (LString acc) (quoteChars (c # d # cs) @ 0x22 # r) =
        tokenize (LString (c # acc)) (quoteChars (d # cs) @ 0x22 # r)"
      by (simp add: lex_quoteUnit del: tokenize.simps quoteChars.simps)
    also have "\<dots> = prepend [TValue (JString (rev (c # acc) @ d # cs))] (tokenize LIdle r)"
      using 3(2) [OF False] .
    finally show ?thesis by simp
  qed
qed

lemma lex_string:
  "tokenize LIdle (QuoteJSONString s @ r) =
     prepend [TValue (JString s)] (tokenize LIdle r)"
  unfolding QuoteJSONString_def
  using lex_quoteChars [of "[]" s r]
  by (simp add: idleStep_def isJSONWhiteSpace_def cu_def)

subsection \<open>The lexer on a serialized collection\<close>

lemma isDigit_isNumberChar: "isDigit c \<Longrightarrow> isNumberChar c"
  by (simp add: isNumberChar_def)

lemma lex_number_chars:
  "list_all isNumberChar ds \<Longrightarrow>
     tokenize (LNumber acc) (ds @ r) = tokenize (LNumber (rev ds @ acc)) r"
  by (induction ds arbitrary: acc) simp_all

lemma idleStep_digit:
  assumes "isDigit c"
  shows "idleStep c = Some ([], LNumber [c])"
proof -
  from assms have "48 \<le> unat c" "unat c \<le> 57"
    by (simp_all add: isDigit_def word_le_nat_alt)
  then have "\<not> isJSONWhiteSpace c" "c \<noteq> cu CHR ''[''" "c \<noteq> cu CHR '']''" "c \<noteq> cu CHR ''{''"
    "c \<noteq> cu CHR ''}''" "c \<noteq> cu CHR '':''" "c \<noteq> cu CHR '',''" "c \<noteq> 0x22"
    by (auto simp: isJSONWhiteSpace_def cu_def)
  with assms show ?thesis by (simp add: idleStep_def)
qed

lemma idleStep_minus: "idleStep (cu CHR ''-'') = Some ([], LNumber [cu CHR ''-''])"
  by (simp add: idleStep_def isJSONWhiteSpace_def cu_def)

lemma idleStep_rbrace: "idleStep (cu CHR ''}'') = Some ([TRBrace], LIdle)"
  by (simp add: idleStep_def isJSONWhiteSpace_def cu_def)

lemma not_numberChar_rbrace: "\<not> isNumberChar (cu CHR ''}'')"
  by (simp add: isNumberChar_def isDigit_def cu_def)

lemma lex_number_end:
  assumes "numberValue (c # ds) = Some v" "idleStep c = Some ([], LNumber [c])"
    "list_all isNumberChar ds"
  shows "tokenize LIdle ((c # ds) @ cu CHR ''}'' # r) = prepend [TValue v, TRBrace] (tokenize LIdle r)"
proof -
  have "tokenize LIdle ((c # ds) @ cu CHR ''}'' # r) = tokenize (LNumber [c]) (ds @ cu CHR ''}'' # r)"
    using assms(2) by simp
  also have "\<dots> = tokenize (LNumber (rev ds @ [c])) (cu CHR ''}'' # r)"
    using assms(3) by (rule lex_number_chars)
  also have "\<dots> = prepend [TValue v, TRBrace] (tokenize LIdle r)"
    using assms(1) by (simp add: not_numberChar_rbrace endLiteral_def idleStep_rbrace)
  finally show ?thesis .
qed

lemma lex_number:
  "tokenize LIdle (Number_toString n @ cu CHR ''}'' # r) =
     prepend [TValue (JNumber n), TRBrace] (tokenize LIdle r)"
proof -
  have digits: "list_all isNumberChar (showNat k)" for k
    using showNat_digits [of k] by (auto simp: list_all_iff isDigit_isNumberChar)
  obtain c ds where s: "Number_toString n = c # ds"
    by (cases "Number_toString n") (auto simp: Number_toString_def showNat_nonempty split: if_splits)
  have v: "numberValue (c # ds) = Some (JNumber n)"
    using numberValue_toString [of n] by (simp add: s)
  have "idleStep c = Some ([], LNumber [c]) \<and> list_all isNumberChar ds"
  proof (cases "n < 0")
    case True
    with s have "c = cu CHR ''-''" "ds = showNat (nat (- n))" by (simp_all add: Number_toString_def)
    then show ?thesis using digits by (simp add: idleStep_minus)
  next
    case False
    with s have cd: "showNat (nat n) = c # ds" by (simp add: Number_toString_def)
    then have "isDigit c" "list_all isNumberChar ds"
      using showNat_digits [of "nat n"] digits [of "nat n"] by simp_all
    then show ?thesis by (simp add: idleStep_digit)
  qed
  then show ?thesis using lex_number_end [OF v] by (simp add: s)
qed

lemma lex_punct:
  "tokenize LIdle (cu CHR ''['' # r) = prepend [TLBracket] (tokenize LIdle r)"
  "tokenize LIdle (cu CHR '']'' # r) = prepend [TRBracket] (tokenize LIdle r)"
  "tokenize LIdle (cu CHR ''{'' # r) = prepend [TLBrace] (tokenize LIdle r)"
  "tokenize LIdle (cu CHR ''}'' # r) = prepend [TRBrace] (tokenize LIdle r)"
  "tokenize LIdle (cu CHR '':'' # r) = prepend [TColon] (tokenize LIdle r)"
  "tokenize LIdle (cu CHR '','' # r) = prepend [TComma] (tokenize LIdle r)"
  by (simp_all add: idleStep_def isJSONWhiteSpace_def cu_def)

lemma lex_item:
  "tokenize LIdle (serializeItem x @ r) = prepend (itemTokens x) (tokenize LIdle r)"
  unfolding serializeItem_def serializeMember_def itemTokens_def
  by (simp add: lex_punct lex_string lex_number del: tokenize.simps)

lemma lex_items:
  "tokenize LIdle (joinComma (map serializeItem xs) @ cu CHR '']'' # r) =
     prepend (joinTokens (map itemTokens xs) @ [TRBracket]) (tokenize LIdle r)"
proof (induction xs rule: induct_list012)
  case 1
  show ?case by (simp add: lex_punct del: tokenize.simps)
next
  case (2 x)
  show ?case by (simp add: lex_item lex_punct del: tokenize.simps)
next
  case (3 x y zs)
  then show ?case by (simp add: lex_item lex_punct del: tokenize.simps)
qed

lemma lex_stringify:
  "tokenize LIdle (JSON_stringify xs) =
     Some (TLBracket # joinTokens (map itemTokens xs) @ [TRBracket])"
  unfolding JSON_stringify_def
  using lex_items [of xs "[]"]
  by (simp add: lex_punct del: tokenize.simps(2))

subsection \<open>The parser on the tokens of a collection\<close>

lemma key_names_distinct:
  "js ''id'' \<noteq> js ''data''" "js ''id'' \<noteq> js ''type''" "js ''id'' \<noteq> js ''timestamp''"
  "js ''data'' \<noteq> js ''type''" "js ''data'' \<noteq> js ''timestamp''" "js ''type'' \<noteq> js ''timestamp''"
  "js ''data'' \<noteq> js ''id''" "js ''type'' \<noteq> js ''id''" "js ''timestamp'' \<noteq> js ''id''"
  "js ''type'' \<noteq> js ''data''" "js ''timestamp'' \<noteq> js ''data''" "js ''timestamp'' \<noteq> js ''type''"
  by (simp_all add: js_def cu_def)

lemma parse_item:
  "parseTokens (MValue, st) (itemTokens x @ r) = parseTokens (deliver (toJS_item x) st) r"
  by (simp add: itemTokens_def toJS_item_def key_names_distinct)

lemma parse_items:
  "xs \<noteq> [] \<Longrightarrow>
     parseTokens (MValue, FArray es # st) (joinTokens (map itemTokens xs) @ TRBracket # r) =
     parseTokens (deliver (JArray (es @ map toJS_item xs)) st) r"
proof (induction xs arbitrary: es rule: induct_list012)
  case 1
  then show ?case by simp
next
  case (2 x)
  show ?case by (simp add: parse_item del: parseTokens.simps(3))
next
  case (3 x y zs)
  have "parseTokens (MValue, FArray es # st)
      (joinTokens (map itemTokens (x # y # zs)) @ TRBracket # r) =
    parseTokens (MValue, FArray (es @ [toJS_item x]) # st)
      (joinTokens (map itemTokens (y # zs)) @ TRBracket # r)"
    by (simp add: parse_item del: parseTokens.simps(3))
  also have "\<dots> = parseTokens (deliver (JArray ((es @ [toJS_item x]) @ map toJS_item (y # zs))) st) r"
    by (rule 3(2)) simp
  finally show ?case by simp
qed

lemma itemTokens_hd: "\<exists>ts. itemTokens x = TLBrace # ts"
  by (simp add: itemTokens_def)

lemma joinTokens_hd: "xs \<noteq> [] \<Longrightarrow> \<exists>ts. joinTokens (map itemTokens xs) = TLBrace # ts"
proof (induction xs rule: induct_list012)
  case 1
  then show ?case by simp
next
  case (2 x)
  show ?case using itemTokens_hd [of x] by simp
next
  case (3 x y zs)
  show ?case using itemTokens_hd [of x] by auto
qed

lemma parse_stringify_tokens:
  "parseTokens (MValue, []) (TLBracket # joinTokens (map itemTokens xs) @ [TRBracket]) =
     Some (toJS xs)"
proof (cases "xs = []")
  case True
  then show ?thesis by (simp add: toJS_def)
next
  case False
  from joinTokens_hd [OF False] obtain ts where ts: "joinTokens (map itemTokens xs) = TLBrace # ts"
    by blast
  have "parseTokens (MValue, []) (TLBracket # joinTokens (map itemTokens xs) @ [TRBracket]) =
      parseTokens (MArrayOpen, []) (joinTokens (map itemTokens xs) @ [TRBracket])"
    by simp
  also have "\<dots> = parseTokens (MValue, [FArray []]) (joinTokens (map itemTokens xs) @ [TRBracket])"
    by (simp add: ts)
  also have "\<dots> = parseTokens (deliver (JArray ([] @ map toJS_item xs)) []) []"
    by (rule parse_items [OF False])
  finally show ?thesis by (simp add: toJS_def)
qed

lemma JSON_parse_stringify: "JSON_parse (JSON_stringify xs) = Some (toJS xs)"
  by (simp add: JSON_parse_def lex_stringify parse_stringify_tokens del: parseTokens.simps)

lemma typeOfName_typeName: "typeOfName (typeName t) = Some t"
  by (cases t) (simp_all add: typeOfName_def js_def cu_def)

lemma asScanItem_toJS: "asScanItem (toJS_item x) = Some x"
  by (simp add: asScanItem_def toJS_item_def key_names_distinct typeOfName_typeName)

lemma asScanItems_toJS: "asScanItems (toJS xs) = Some xs"
  by (induction xs) (simp_all add: asScanItems_def toJS_def asScanItem_toJS)

section \<open>The snapshot: round trip and start-up\<close>

lemma JSON_stringify_nonempty: "JSON_stringify xs \<noteq> []"
  by (simp add: JSON_stringify_def)

lemma loadHistory_eq:
  "loadHistory ok (mounted stored) =
     (Inr (),
      \<lparr>history = (case (if ok then stored else None) of
                    None \<Rightarrow> JArray []
                  | Some text \<Rightarrow>
                      if text = [] then JArray []
                      else (case JSON_parse text of None \<Rightarrow> JArray [] | Some v \<Rightarrow> v)),
       isLoading = False, storage = stored,
       trace = [ReadIssued, ReadSettled ok] @
         (case (if ok then stored else None) of
            None \<Rightarrow> (if ok then [] else [ErrorLogged])
          | Some text \<Rightarrow>
              if text = [] then []
              else (case JSON_parse text of None \<Rightarrow> [ErrorLogged] | Some v \<Rightarrow> [HistorySet])) @
         [LoadingSet]\<rparr>)"
  by (simp add: loadHistory_def loadHistory_try_def AsyncStorage_getItem_def mounted_def
      setHistory_def setIsLoading_def console_error_def emit_def
      split: option.split)

text \<open>
  C7. For every collection of scan records, the text that \<open>saveHistory\<close> writes is read
  back by \<open>loadHistory\<close> as the same collection: parsing the serialized text gives the
  run-time value of the collection, which read at the type \<open>ScanItem[]\<close> is the
  collection itself, with the same ids, payloads, categories and time stamps in the
  same order.
\<close>

theorem snapshot_roundtrip:
  "JSON_parse (JSON_stringify items) = Some (toJS items) \<and>
   asScanItems (toJS items) = Some items \<and>
   storage (snd (saveHistory True items w)) = Some (JSON_stringify items) \<and>
   history (snd (loadHistory True (mounted (storage (snd (saveHistory True items w)))))) =
     toJS items"
  by (simp add: JSON_parse_stringify asScanItems_toJS saveHistory_def AsyncStorage_setItem_def
      emit_def loadHistory_eq JSON_stringify_nonempty)

theorem snapshot_roundtrip_witness:
  "JSON_parse (JSON_stringify
     [\<lparr>id' = js ''a-1'', data = [0x22, 0x0A, 0x5C, 0x01, 0xD83D, 0xDE00, 0xD800, 0x41],
        type = Text, timestamp = 1700000000123\<rparr>,
      \<lparr>id' = js ''b-2'', data = js ''https://example.com'', type = Url, timestamp = -5\<rparr>]) =
   Some (JArray
     [JObject [(js ''id'', JString (js ''a-1'')),
        (js ''data'', JString [0x22, 0x0A, 0x5C, 0x01, 0xD83D, 0xDE00, 0xD800, 0x41]),
        (js ''type'', JString (js ''text'')), (js ''timestamp'', JNumber 1700000000123)],
      JObject [(js ''id'', JString (js ''b-2'')), (js ''data'', JString (js ''https://example.com'')),
        (js ''type'', JString (js ''url'')), (js ''timestamp'', JNumber (-5))]])"
  using snapshot_roundtrip [of
     "[\<lparr>id' = js ''a-1'', data = [0x22, 0x0A, 0x5C, 0x01, 0xD83D, 0xDE00, 0xD800, 0x41],
        type = Text, timestamp = 1700000000123\<rparr>,
      \<lparr>id' = js ''b-2'', data = js ''https://example.com'', type = Url, timestamp = -5\<rparr>]"]
  by (simp add: toJS_def toJS_item_def)

text \<open>
  C4, as the code has it. Whatever the storage holds, \<open>loadHistory\<close> returns normally and
  the readiness flag is set. The collection starts empty when the read fails, when
  nothing or the empty string is stored, and when the text is not JSON. A text that is
  JSON is installed as \<open>JSON.parse\<close> returns it, with no check of its shape; for a
  snapshot written by \<open>saveHistory\<close> that is the collection it was written from.
\<close>

theorem loadHistory_outcome:
  "\<exists>w'. loadHistory ok (mounted stored) = (Inr (), w') \<and> isLoading w' = False \<and>
     storage w' = stored \<and>
     ((\<not> ok \<or> stored = None \<or> stored = Some [] \<or>
       (\<exists>text. stored = Some text \<and> JSON_parse text = None)) \<longrightarrow> history w' = JArray []) \<and>
     (\<forall>text v. ok \<and> stored = Some text \<and> text \<noteq> [] \<and> JSON_parse text = Some v \<longrightarrow>
        history w' = v) \<and>
     (\<forall>items. ok \<and> stored = Some (JSON_stringify items) \<longrightarrow>
        history w' = toJS items \<and> asScanItems (history w') = Some items)"
  by (auto simp: loadHistory_eq JSON_parse_stringify asScanItems_toJS JSON_stringify_nonempty)

theorem loadHistory_outcome_witness:
  "history (snd (loadHistory True (mounted (Some (js ''{not json''))))) = JArray [] \<and>
   isLoading (snd (loadHistory True (mounted (Some (js ''{not json''))))) = False \<and>
   history (snd (loadHistory False (mounted (Some (js ''[]''))))) = JArray [] \<and>
   history (snd (loadHistory True (mounted (Some (JSON_stringify
     [\<lparr>id' = js ''a-1'', data = js ''hello'', type = Text, timestamp = 1700000000123\<rparr>]))))) =
     toJS [\<lparr>id' = js ''a-1'', data = js ''hello'', type = Text, timestamp = 1700000000123\<rparr>]"
proof -
  have p: "JSON_parse (js ''{not json'') = None" by code_simp
  show ?thesis
    using loadHistory_outcome [of True "Some (js ''{not json'')"]
      loadHistory_outcome [of False "Some (js ''[]'')"]
      loadHistory_outcome [of True "Some (JSON_stringify
        [\<lparr>id' = js ''a-1'', data = js ''hello'', type = Text, timestamp = 1700000000123\<rparr>])"]
      p
    by auto
qed

text \<open>
  C4, as the specification has it (malformed content gives the empty collection),
  fails: the text \<open>{}\<close> is no collection of scan records, and \<open>loadHistory\<close> installs
  the object as the history.
\<close>

theorem loadHistory_installs_unvalidated:
  "JSON_parse (js ''{}'') = Some (JObject []) \<and> asScanItems (JObject []) = None \<and>
   history (snd (loadHistory True (mounted (Some (js ''{}''))))) = JObject [] \<and>
   history (snd (loadHistory True (mounted (Some (js ''{}''))))) \<noteq> JArray []"
proof -
  have p: "JSON_parse (js ''{}'') = Some (JObject [])" by code_simp
  have n: "js ''{}'' \<noteq> []" by (simp add: js_def)
  show ?thesis by (simp add: loadHistory_eq p n asScanItems_def)
qed

end
